theory Spec2Isabelle
  imports Main "HOL-Library.Sublist" "HOL-Library.Countable" "HOL-Library.AList"
begin

section \<open>Platform: exceptions, JSON and localStorage\<close>

text \<open>
  The three stores of the reader keep their state as JSON text in \<^verbatim>\<open>localStorage\<close>.
  \<^verbatim>\<open>JSON.parse\<close> and \<^verbatim>\<open>JSON.stringify\<close> belong to the browser, not to the repository, so
  they are parameters of every operation: \<open>parse\<close> either throws (\<open>Inl\<close>) or returns the
  parsed value, seen at the TypeScript type the calling code gives it, and
  \<open>stringify space v\<close> stands for \<^verbatim>\<open>JSON.stringify(v, null, space)\<close> (\<open>space = 0\<close> for the
  one-argument call).

  Strings are byte strings holding the UTF-8 encoding of the JavaScript text. Values whose
  shape contradicts the TypeScript declarations (a store that is not an object, a field of
  the wrong kind), exceptions of \<^verbatim>\<open>localStorage\<close> itself and floating-point rounding are
  outside the model.
\<close>

datatype js_error = SyntaxError | TypeError

record ('p, 'v) JSON =
  parse :: "string \<Rightarrow> js_error + 'p"
  stringify :: "nat \<Rightarrow> 'v \<Rightarrow> string"

type_synonym localStorage = "string \<Rightarrow> string option"

definition getItem :: "localStorage \<Rightarrow> string \<Rightarrow> string option" where
  "getItem ls key = ls key"

definition setItem :: "localStorage \<Rightarrow> string \<Rightarrow> string \<Rightarrow> localStorage" where
  "setItem ls key v = ls(key \<mapsto> v)"

text \<open>A parser known on finitely many texts: every other text is a syntax error.\<close>

definition parse_table :: "(string \<times> 'p) list \<Rightarrow> string \<Rightarrow> js_error + 'p" where
  "parse_table tbl s = (case map_of tbl s of Some v \<Rightarrow> Inr v | None \<Rightarrow> Inl SyntaxError)"


section \<open>Preference store (reader-settings.ts)\<close>

definition STORAGE_KEY :: string where
  "STORAGE_KEY = ''pg-reader-settings''"

text \<open>
  The \<open>theme\<close> field normally holds a string. The migration step of \<open>loadSettings\<close> assigns
  to it whatever the property lookup \<^verbatim>\<open>THEME_MIGRATION[parsed.theme]\<close> finds; for a key such
  as \<^verbatim>\<open>constructor\<close> that is a member inherited from \<^verbatim>\<open>Object.prototype\<close>, not a string.
\<close>

datatype js_theme = Str string | Proto_member string

record ReaderSettings =
  theme :: js_theme
  fontFamily :: string
  fontSize :: int
  lineHeight :: int
  contentWidth :: string

text \<open>What \<^verbatim>\<open>JSON.parse(stored)\<close> contributes to the spread: each field is present or not.\<close>

record PersistedSettings =
  p_theme :: "string option"
  p_fontFamily :: "string option"
  p_fontSize :: "int option"
  p_lineHeight :: "int option"
  p_contentWidth :: "string option"

definition DEFAULTS :: ReaderSettings where
  "DEFAULTS = \<lparr>theme = Str ''white'', fontFamily = ''sans'', fontSize = 2, lineHeight = 1,
     contentWidth = ''medium''\<rparr>"

definition THEME_MIGRATION :: "(string \<times> string) list" where
  "THEME_MIGRATION = [(''light'', ''white''), (''sepia'', ''tan''), (''dark'', ''black'')]"

definition Object_prototype_keys :: "string list" where
  "Object_prototype_keys = [''constructor'', ''__defineGetter__'', ''__defineSetter__'',
     ''hasOwnProperty'', ''__lookupGetter__'', ''__lookupSetter__'', ''isPrototypeOf'',
     ''propertyIsEnumerable'', ''toString'', ''valueOf'', ''__proto__'', ''toLocaleString'']"

text \<open>
  \<^verbatim>\<open>THEME_MIGRATION[key]\<close>: an own property of the table, else a member inherited from
  \<^verbatim>\<open>Object.prototype\<close>, else \<^verbatim>\<open>undefined\<close>. Every value found is truthy.
\<close>

definition THEME_MIGRATION_get :: "js_theme \<Rightarrow> js_theme option" where
  "THEME_MIGRATION_get t =
     (case t of
        Proto_member _ \<Rightarrow> None
      | Str key \<Rightarrow>
          (case map_of THEME_MIGRATION key of
             Some v \<Rightarrow> Some (Str v)
           | None \<Rightarrow> if key \<in> set Object_prototype_keys then Some (Proto_member key) else None))"

text \<open>\<^verbatim>\<open>{ ...DEFAULTS, ...JSON.parse(stored) }\<close>\<close>

definition spread_settings :: "ReaderSettings \<Rightarrow> PersistedSettings \<Rightarrow> ReaderSettings" where
  "spread_settings d p =
     \<lparr>theme = (case p_theme p of Some t \<Rightarrow> Str t | None \<Rightarrow> theme d),
      fontFamily = (case p_fontFamily p of Some f \<Rightarrow> f | None \<Rightarrow> fontFamily d),
      fontSize = (case p_fontSize p of Some n \<Rightarrow> n | None \<Rightarrow> fontSize d),
      lineHeight = (case p_lineHeight p of Some n \<Rightarrow> n | None \<Rightarrow> lineHeight d),
      contentWidth = (case p_contentWidth p of Some w \<Rightarrow> w | None \<Rightarrow> contentWidth d)\<rparr>"

text \<open>
  The body of the \<^verbatim>\<open>try\<close> block of \<open>loadSettings\<close>: it throws, returns a record, or falls
  through (\<open>Inr None\<close>) when nothing usable is stored (\<^verbatim>\<open>null\<close> and the empty string are
  falsy).
\<close>

definition loadSettings_try ::
  "(PersistedSettings, ReaderSettings) JSON \<Rightarrow> localStorage \<Rightarrow> js_error + ReaderSettings option"
where
  "loadSettings_try J ls =
     (case getItem ls STORAGE_KEY of
        None \<Rightarrow> Inr None
      | Some stored \<Rightarrow>
          if stored = [] then Inr None
          else
            (case parse J stored of
               Inl e \<Rightarrow> Inl e
             | Inr p \<Rightarrow>
                 let parsed = spread_settings DEFAULTS p in
                 (case THEME_MIGRATION_get (theme parsed) of
                    Some t \<Rightarrow> Inr (Some (parsed\<lparr>theme := t\<rparr>))
                  | None \<Rightarrow> Inr (Some parsed))))"

definition loadSettings ::
  "(PersistedSettings, ReaderSettings) JSON \<Rightarrow> localStorage \<Rightarrow> ReaderSettings"
where
  "loadSettings J ls =
     (case loadSettings_try J ls of
        Inl e \<Rightarrow> DEFAULTS
      | Inr None \<Rightarrow> DEFAULTS
      | Inr (Some s) \<Rightarrow> s)"

text \<open>
  \<open>saveSettings\<close> persists the record; \<open>applySettings\<close> only writes style variables of the
  page and is left out.
\<close>

definition saveSettings ::
  "(PersistedSettings, ReaderSettings) JSON \<Rightarrow> ReaderSettings \<Rightarrow> localStorage \<Rightarrow> localStorage"
where
  "saveSettings J settings ls = setItem ls STORAGE_KEY (stringify J 0 settings)"

definition themes :: "string list" where
  "themes = [''white'', ''tan'', ''grey'', ''black'']"

text \<open>\<^verbatim>\<open>themes.indexOf(settings.theme)\<close>, \<open>-1\<close> when the value is not in the array.\<close>

fun indexOf :: "string list \<Rightarrow> js_theme \<Rightarrow> int" where
  "indexOf [] t = -1"
| "indexOf (x # xs) t =
     (if t = Str x then 0 else (let i = indexOf xs t in if i < 0 then -1 else i + 1))"

definition cycleTheme ::
  "(PersistedSettings, ReaderSettings) JSON \<Rightarrow> localStorage \<Rightarrow> localStorage \<times> ReaderSettings"
where
  "cycleTheme J ls =
     (let settings = loadSettings J ls;
          idx = indexOf themes (theme settings);
          settings = settings\<lparr>theme := Str (themes ! nat ((idx + 1) mod int (length themes)))\<rparr>
      in (saveSettings J settings ls, settings))"

definition adjustFontSize ::
  "(PersistedSettings, ReaderSettings) JSON \<Rightarrow> int \<Rightarrow> localStorage \<Rightarrow> localStorage \<times> ReaderSettings"
where
  "adjustFontSize J delta ls =
     (let settings = loadSettings J ls;
          settings = settings\<lparr>fontSize := max 0 (min 4 (fontSize settings + delta))\<rparr>
      in (saveSettings J settings ls, settings))"

text \<open>The valid ranges of the two ordinal fields, and the same for a persisted record.\<close>

definition levels_in_range :: "ReaderSettings \<Rightarrow> bool" where
  "levels_in_range s \<longleftrightarrow> 0 \<le> fontSize s \<and> fontSize s \<le> 4 \<and> 0 \<le> lineHeight s \<and> lineHeight s \<le> 2"

definition persisted_in_range :: "PersistedSettings \<Rightarrow> bool" where
  "persisted_in_range p \<longleftrightarrow>
     (case p_fontSize p of None \<Rightarrow> True | Some n \<Rightarrow> 0 \<le> n \<and> n \<le> 4) \<and>
     (case p_lineHeight p of None \<Rightarrow> True | Some n \<Rightarrow> 0 \<le> n \<and> n \<le> 2)"

definition nothing_persisted :: PersistedSettings where
  "nothing_persisted = \<lparr>p_theme = None, p_fontFamily = None, p_fontSize = None,
     p_lineHeight = None, p_contentWidth = None\<rparr>"


section \<open>Progress store (reading-history.ts)\<close>

definition HISTORY_KEY :: string where
  "HISTORY_KEY = ''pg-reading-history''"

text \<open>
  A field of a stored record can be absent: \<open>markAsRead\<close> on a document without a record
  spreads \<^verbatim>\<open>undefined\<close> and creates a record with no \<open>scrollPosition\<close>.
\<close>

record ReadingRecord =
  read :: "bool option"
  scrollPosition :: "rat option"
  lastReadAt :: "string option"
  wordCount :: "int option"

text \<open>
  An object is the list of its properties in property order; \<^verbatim>\<open>obj[key]\<close> is \<open>map_of\<close>, the
  assignment \<^verbatim>\<open>obj[key] = v\<close> is \<open>AList.update\<close>. (Keys are document slugs; the accessor
  \<^verbatim>\<open>__proto__\<close> and members inherited by name are not modelled here.)
\<close>

type_synonym ReadingHistory = "(string \<times> ReadingRecord) list"



text \<open>The guarded expression of \<open>getHistory\<close>, and \<open>getHistory\<close> with its \<^verbatim>\<open>catch\<close>.\<close>

definition getHistory_try ::
  "(ReadingHistory, ReadingHistory) JSON \<Rightarrow> localStorage \<Rightarrow> js_error + ReadingHistory"
where
  "getHistory_try J ls =
     parse J (case getItem ls HISTORY_KEY of
                None \<Rightarrow> ''{}''
              | Some s \<Rightarrow> if s = [] then ''{}'' else s)"

definition getHistory ::
  "(ReadingHistory, ReadingHistory) JSON \<Rightarrow> localStorage \<Rightarrow> ReadingHistory"
where
  "getHistory J ls = (case getHistory_try J ls of Inl e \<Rightarrow> [] | Inr h \<Rightarrow> h)"




definition getScrollPosition ::
  "(ReadingHistory, ReadingHistory) JSON \<Rightarrow> string \<Rightarrow> localStorage \<Rightarrow> rat"
where
  "getScrollPosition J slug ls =
     (case map_of (getHistory J ls) slug of
        None \<Rightarrow> 0
      | Some r \<Rightarrow> (case scrollPosition r of None \<Rightarrow> 0 | Some p \<Rightarrow> p))"












definition parses_empty_object :: "('k \<times> 'w) list \<Rightarrow> (('k \<times> 'w) list, 'v) JSON \<Rightarrow> bool" where
  "parses_empty_object e J \<longleftrightarrow> parse J ''{}'' = Inr e"


section \<open>Annotation store (annotations.ts)\<close>

definition ANNOTATIONS_STORAGE_KEY :: string where
  "ANNOTATIONS_STORAGE_KEY = ''pg-annotations''"

datatype Color = yellow | green | blue | pink


record Annotation =
  id' :: string
  essaySlug :: string
  text' :: string
  color :: Color
  startOffset :: rat
  endOffset :: rat
  parentSelector :: string
  createdAt :: string

type_synonym AnnotationStore = "(string \<times> Annotation list) list"

definition getStore_try ::
  "(AnnotationStore, AnnotationStore) JSON \<Rightarrow> localStorage \<Rightarrow> js_error + AnnotationStore"
where
  "getStore_try J ls =
     parse J (case getItem ls ANNOTATIONS_STORAGE_KEY of
                None \<Rightarrow> ''{}''
              | Some s \<Rightarrow> if s = [] then ''{}'' else s)"

definition getStore ::
  "(AnnotationStore, AnnotationStore) JSON \<Rightarrow> localStorage \<Rightarrow> AnnotationStore"
where
  "getStore J ls = (case getStore_try J ls of Inl e \<Rightarrow> [] | Inr store \<Rightarrow> store)"

definition getAllAnnotations ::
  "(AnnotationStore, AnnotationStore) JSON \<Rightarrow> localStorage \<Rightarrow> AnnotationStore"
where
  "getAllAnnotations J ls = getStore J ls"









section \<open>Auxiliary notions for the store properties\<close>

text \<open>Nothing usable is stored under a key: no entry, the empty string, or a text that
  \<open>parse\<close> rejects.\<close>

definition stored_unusable :: "('p, 'v) JSON \<Rightarrow> string \<Rightarrow> localStorage \<Rightarrow> bool" where
  "stored_unusable J key ls \<longleftrightarrow>
     (case getItem ls key of
        None \<Rightarrow> True
      | Some s \<Rightarrow> s = [] \<or> (case parse J s of Inl e \<Rightarrow> True | Inr v \<Rightarrow> False))"


text \<open>Concrete platforms for examples: a parser given by a table, and a JSON string literal
  of a word without special characters.\<close>

definition table_JSON :: "(string \<times> 'p) list \<Rightarrow> string \<Rightarrow> ('p, 'v) JSON" where
  "table_JSON tbl out = \<lparr>parse = parse_table tbl, stringify = (\<lambda>space v. out)\<rparr>"

definition quoted :: "string \<Rightarrow> string" where
  "quoted s = CHR 0x22 # s @ [CHR 0x22]"

text \<open>
  A codec that meets \<open>json_roundtrip\<close>, to show that the assumption can be met: it writes
  the empty object as \<^verbatim>\<open>{}\<close> and any other history as a unary numeral.
\<close>

instantiation ReadingRecord_ext :: (countable) countable
begin
instance
proof (rule countable_classI [of "\<lambda>r. to_nat (read r, scrollPosition r, lastReadAt r, wordCount r, ReadingRecord.more r)"])
  fix x y :: "'a ReadingRecord_scheme"
  assume "to_nat (read x, scrollPosition x, lastReadAt x, wordCount x, ReadingRecord.more x) =
          to_nat (read y, scrollPosition y, lastReadAt y, wordCount y, ReadingRecord.more y)"
  then show "x = y" by (cases x, cases y) simp
qed
end



section \<open>Footnote engine: strings, markers and the rendered tree\<close>

subsection \<open>Whitespace and trimming\<close>

text \<open>
  The characters that \<^verbatim>\<open>String.prototype.trim\<close> removes and that \<^verbatim>\<open>\s\<close> matches (white space
  and line terminators), in UTF-8.
\<close>

definition js_whitespace :: "string list" where
  "js_whitespace =
     [[CHR 0x09], [CHR 0x0A], [CHR 0x0B], [CHR 0x0C], [CHR 0x0D], [CHR 0x20],
      [CHR 0xC2, CHR 0xA0], [CHR 0xE1, CHR 0x9A, CHR 0x80],
      [CHR 0xE2, CHR 0x80, CHR 0x80], [CHR 0xE2, CHR 0x80, CHR 0x81],
      [CHR 0xE2, CHR 0x80, CHR 0x82], [CHR 0xE2, CHR 0x80, CHR 0x83],
      [CHR 0xE2, CHR 0x80, CHR 0x84], [CHR 0xE2, CHR 0x80, CHR 0x85],
      [CHR 0xE2, CHR 0x80, CHR 0x86], [CHR 0xE2, CHR 0x80, CHR 0x87],
      [CHR 0xE2, CHR 0x80, CHR 0x88], [CHR 0xE2, CHR 0x80, CHR 0x89],
      [CHR 0xE2, CHR 0x80, CHR 0x8A], [CHR 0xE2, CHR 0x80, CHR 0xA8],
      [CHR 0xE2, CHR 0x80, CHR 0xA9], [CHR 0xE2, CHR 0x80, CHR 0xAF],
      [CHR 0xE2, CHR 0x81, CHR 0x9F], [CHR 0xE3, CHR 0x80, CHR 0x80],
      [CHR 0xEF, CHR 0xBB, CHR 0xBF]]"

text \<open>Remove, from the front of \<open>s\<close>, every leading occurrence of one of the words \<open>ws\<close>.\<close>

function strip_leading :: "string list \<Rightarrow> string \<Rightarrow> string" where
  "strip_leading ws s =
     (case find (\<lambda>w. w \<noteq> [] \<and> prefix w s) ws of
        None \<Rightarrow> s
      | Some w \<Rightarrow> strip_leading ws (drop (length w) s))"
  by pat_completeness auto
termination
proof (relation "measure (\<lambda>(ws, s). length s)")
  show "wf (measure (\<lambda>(ws, s). length s))" by simp
next
  fix ws :: "string list" and s w :: string
  assume "find (\<lambda>w. w \<noteq> [] \<and> prefix w s) ws = Some w"
  then have "w \<noteq> [] \<and> prefix w s"
    by (auto simp add: find_Some_iff)
  then have "length (drop (length w) s) < length s"
    by (cases s) (auto simp add: prefix_def)
  then show "((ws, drop (length w) s), (ws, s)) \<in> measure (\<lambda>(ws, s). length s)"
    by simp
qed

declare strip_leading.simps [simp del]

definition trimStart :: "string \<Rightarrow> string" where
  "trimStart s = strip_leading js_whitespace s"

definition trimEnd :: "string \<Rightarrow> string" where
  "trimEnd s = rev (strip_leading (map rev js_whitespace) (rev s))"

definition trim :: "string \<Rightarrow> string" where
  "trim s = trimStart (trimEnd s)"

text \<open>\<open>s\<close> matches \<^verbatim>\<open>^\s*$\<close>.\<close>

definition all_whitespace :: "string \<Rightarrow> bool" where
  "all_whitespace s \<longleftrightarrow> trimStart s = []"

subsection \<open>The marker pattern\<close>

definition is_digit :: "char \<Rightarrow> bool" where
  "is_digit c \<longleftrightarrow> c \<in> set ''0123456789''"

text \<open>
  The pattern \<^verbatim>\<open>\[(\d+)\]\<close> anchored at the start of \<open>s\<close>: the captured number and the text
  after the match. The digits are followed by \<^verbatim>\<open>]\<close>, so the greedy \<^verbatim>\<open>\d+\<close> takes the whole run
  of digits.
\<close>

definition match_marker :: "string \<Rightarrow> (string \<times> string) option" where
  "match_marker s =
     (case s of
        [] \<Rightarrow> None
      | c # r \<Rightarrow>
          if c = CHR ''['' then
            (let num = takeWhile is_digit r; rest = dropWhile is_digit r in
             if num \<noteq> [] \<and> rest \<noteq> [] \<and> hd rest = CHR '']'' then Some (num, tl rest) else None)
          else None)"

text \<open>
  \<^verbatim>\<open>regex.exec(text)\<close> for the global pattern with \<^verbatim>\<open>regex.lastIndex = r\<close>: the leftmost match at
  or after \<open>r\<close>, as (\<^verbatim>\<open>match.index\<close>, \<^verbatim>\<open>match[1]\<close>, new \<^verbatim>\<open>lastIndex\<close>). \<open>find_marker s i\<close> searches
  the text \<open>s\<close> that starts at index \<open>i\<close>.
\<close>

fun find_marker :: "string \<Rightarrow> nat \<Rightarrow> (nat \<times> string \<times> nat) option" where
  "find_marker [] i = None"
| "find_marker (c # s) i =
     (case match_marker (c # s) of
        Some (num, rest) \<Rightarrow> Some (i, num, i + length num + 2)
      | None \<Rightarrow> find_marker s (Suc i))"

definition exec :: "string \<Rightarrow> nat \<Rightarrow> (nat \<times> string \<times> nat) option" where
  "exec txt r = find_marker (drop r txt) r"

text \<open>A match has the shape of a marker, and \<open>exec\<close> moves forward within the text.\<close>

lemma match_marker_SomeD:
  assumes "match_marker s = Some (num, rest)"
  shows "s = CHR ''['' # num @ CHR '']'' # rest \<and> num \<noteq> [] \<and> (\<forall>c\<in>set num. is_digit c)"
proof -
  from assms obtain r where s: "s = CHR ''['' # r"
    by (cases s) (auto simp add: match_marker_def split: if_splits)
  from assms s have n: "num = takeWhile is_digit r" "num \<noteq> []" "dropWhile is_digit r \<noteq> []"
    "hd (dropWhile is_digit r) = CHR '']''" "rest = tl (dropWhile is_digit r)"
    by (auto simp add: match_marker_def Let_def split: if_splits)
  have "r = takeWhile is_digit r @ dropWhile is_digit r" by simp
  also have "dropWhile is_digit r = CHR '']'' # rest"
    using n(3,4,5) by (cases "dropWhile is_digit r") auto
  finally have "r = num @ CHR '']'' # rest" using n(1) by simp
  moreover have "\<forall>c\<in>set num. is_digit c"
    unfolding n(1) by (auto dest: set_takeWhileD)
  ultimately show ?thesis using s n(2) by simp
qed

lemma find_marker_SomeD:
  "find_marker s i = Some (index, num, r') \<Longrightarrow>
     i \<le> index \<and> r' = index + length num + 2 \<and> r' \<le> i + length s"
proof (induction s arbitrary: i)
  case Nil then show ?case by simp
next
  case (Cons c s)
  show ?case
  proof (cases "match_marker (c # s)")
    case None
    with Cons.prems have "find_marker s (Suc i) = Some (index, num, r')" by simp
    from Cons.IH [OF this] show ?thesis by simp
  next
    case (Some m)
    obtain n rest where m: "m = (n, rest)" by (cases m)
    from Some m Cons.prems have e: "index = i" "num = n" "r' = i + length n + 2" by auto
    from match_marker_SomeD [OF Some [unfolded m]] have "length (c # s) = length n + 2 + length rest"
      by simp
    with e show ?thesis by simp
  qed
qed

lemma exec_SomeD:
  "exec txt r = Some (index, num, r') \<Longrightarrow> r < r' \<and> r' \<le> length txt"
proof -
  assume a: "exec txt r = Some (index, num, r')"
  then have "drop r txt \<noteq> []" by (auto simp add: exec_def)
  then have "r < length txt" by simp
  with find_marker_SomeD [OF a [unfolded exec_def]] show ?thesis by simp
qed

text \<open>\<^verbatim>\<open>/\[\d+\]/.test(text)\<close>\<close>

definition test :: "string \<Rightarrow> bool" where
  "test txt \<longleftrightarrow> exec txt 0 \<noteq> None"

text \<open>\<^verbatim>\<open>text.slice(a, b)\<close> for \<open>a \<le> b\<close> within the text.\<close>

definition slice :: "string \<Rightarrow> nat \<Rightarrow> nat \<Rightarrow> string" where
  "slice txt a b = take (b - a) (drop a txt)"

text \<open>
  \<^verbatim>\<open>html.split(/\[(\d+)\]/)\<close>: the pieces between the matches, with the captured number of
  each match spliced in between. \<open>cur\<close> is the piece collected so far.
\<close>

function split_from :: "string \<Rightarrow> string \<Rightarrow> string list" where
  "split_from cur [] = [cur]"
| "split_from cur (c # s) =
     (case match_marker (c # s) of
        Some (num, rest) \<Rightarrow> cur # num # split_from [] rest
      | None \<Rightarrow> split_from (cur @ [c]) s)"
  by pat_completeness auto
termination
proof (relation "measure (\<lambda>(cur, s). length s)")
  show "wf (measure (\<lambda>(cur, s). length s))" by simp
next
  fix cur s :: string and c :: char and x2 :: "string \<times> string" and num rest :: string
  assume "match_marker (c # s) = Some x2" "(num, rest) = x2"
  then have "length rest < length (c # s)"
    by (auto simp add: match_marker_def Let_def split: if_splits
        intro: le_less_trans [OF length_dropWhile_le])
      (metis diff_le_self le_imp_less_Suc le_trans length_dropWhile_le length_tl)
  then show "((([] :: string), rest), (cur, c # s)) \<in> measure (\<lambda>(cur, s). length s)"
    by simp
next
  fix cur s :: string and c :: char
  show "((cur @ [c], s), (cur, c # s)) \<in> measure (\<lambda>(cur, s). length s)"
    by simp
qed

definition split_markers :: "string \<Rightarrow> string list" where
  "split_markers html = split_from [] html"

subsection \<open>The rendered tree\<close>

text \<open>
  A node is a text node or an element with its local name, its attributes and its
  children (other kinds of node do not occur in the rendered prose).
\<close>

datatype node = Text string | Element string "(string \<times> string) list" "node list"

fun textContent :: "node \<Rightarrow> string" where
  "textContent (Text s) = s"
| "textContent (Element tag attrs cs) = concat (map textContent cs)"

definition getAttribute :: "(string \<times> string) list \<Rightarrow> string \<Rightarrow> string option" where
  "getAttribute attrs name = map_of attrs name"

text \<open>The class list: the \<^verbatim>\<open>class\<close> attribute split at ASCII white space.\<close>

fun class_tokens :: "string \<Rightarrow> string \<Rightarrow> string list" where
  "class_tokens cur [] = (if cur = [] then [] else [cur])"
| "class_tokens cur (c # s) =
     (if c \<in> set [CHR 0x09, CHR 0x0A, CHR 0x0C, CHR 0x0D, CHR 0x20]
      then (if cur = [] then [] else [cur]) @ class_tokens [] s
      else class_tokens (cur @ [c]) s)"

definition classList :: "(string \<times> string) list \<Rightarrow> string list" where
  "classList attrs = (case getAttribute attrs ''class'' of None \<Rightarrow> [] | Some v \<Rightarrow> class_tokens [] v)"

text \<open>The three selectors of the engine, on the name and attributes of an element.\<close>

definition is_notes_div :: "string \<Rightarrow> (string \<times> string) list \<Rightarrow> bool" where
  "is_notes_div tag attrs \<longleftrightarrow> tag = ''div'' \<and> ''text-xs'' \<in> set (classList attrs)"

definition has_data_fn :: "(string \<times> string) list \<Rightarrow> bool" where
  "has_data_fn attrs \<longleftrightarrow> getAttribute attrs ''data-fn'' \<noteq> None"

definition is_fragment_link :: "string \<Rightarrow> (string \<times> string) list \<Rightarrow> bool" where
  "is_fragment_link tag attrs \<longleftrightarrow>
     tag = ''a'' \<and> (case getAttribute attrs ''href'' of None \<Rightarrow> False | Some h \<Rightarrow> prefix ''#f'' h)"

text \<open>The descendants of a node in document order.\<close>

fun descendants :: "node \<Rightarrow> node list" where
  "descendants (Text s) = []"
| "descendants (Element tag attrs cs) = concat (map (\<lambda>c. c # descendants c) cs)"

fun matches_notes_div :: "node \<Rightarrow> bool" where
  "matches_notes_div (Text s) = False"
| "matches_notes_div (Element tag attrs cs) = is_notes_div tag attrs"

fun matches_strong :: "node \<Rightarrow> bool" where
  "matches_strong (Text s) = False"
| "matches_strong (Element tag attrs cs) = (tag = ''strong'')"

text \<open>
  The Definition Map: a JavaScript \<^verbatim>\<open>Map\<close>, as the list of its entries in insertion order;
  \<^verbatim>\<open>map.set\<close> is \<open>AList.update\<close>, \<^verbatim>\<open>map.has(k)\<close> is \<open>map_of m k \<noteq> None\<close>.
\<close>

type_synonym footnote_map = "(string \<times> string) list"

definition has :: "footnote_map \<Rightarrow> string \<Rightarrow> bool" where
  "has footnotes num \<longleftrightarrow> map_of footnotes num \<noteq> None"

subsection \<open>parseFootnotes\<close>

text \<open>
  The loop \<^verbatim>\<open>for (let i = 1; i < parts.length; i += 2)\<close>. \<open>html_text raw\<close> stands for the
  browser's parsing of the fragment \<open>raw\<close> into a fresh element and reading its
  \<^verbatim>\<open>textContent\<close>.
\<close>

function set_definitions ::
  "(string \<Rightarrow> string) \<Rightarrow> string list \<Rightarrow> nat \<Rightarrow> footnote_map \<Rightarrow> footnote_map"
where
  "set_definitions html_text parts i m =
     (if i < length parts then
        (let num = parts ! i;
             rawHtml = (if i + 1 < length parts then parts ! (i + 1) else []);
             txt = trim (html_text rawHtml)
         in set_definitions html_text parts (i + 2) (if txt \<noteq> [] then AList.update num txt m else m))
      else m)"
  by pat_completeness auto
termination
  by (relation "measure (\<lambda>(html_text, parts, i, m). length parts - i)") auto

declare set_definitions.simps [simp del]

text \<open>
  The body of the loop over the notes sections; \<open>innerHTML\<close> is the browser's serialisation
  of the children of an element.
\<close>

definition parse_section ::
  "(node \<Rightarrow> string) \<Rightarrow> (string \<Rightarrow> string) \<Rightarrow> footnote_map \<Rightarrow> node \<Rightarrow> footnote_map"
where
  "parse_section innerHTML html_text m section =
     (case find matches_strong (descendants section) of
        None \<Rightarrow> m
      | Some strong \<Rightarrow>
          if \<not> prefix ''Notes'' (textContent strong) then m
          else set_definitions html_text (split_markers (innerHTML section)) 1 m)"

definition parseFootnotes ::
  "(node \<Rightarrow> string) \<Rightarrow> (string \<Rightarrow> string) \<Rightarrow> node \<Rightarrow> footnote_map"
where
  "parseFootnotes innerHTML html_text prose =
     foldl (parse_section innerHTML html_text) []
       (filter matches_notes_div (descendants prose))"

subsection \<open>Making citations interactive\<close>

text \<open>
  The control that both passes create (\<open>styleRef\<close> only sets presentation and hover
  listeners and is left out).
\<close>

definition button :: "string \<Rightarrow> node" where
  "button num =
     Element ''button'' [(''data-fn'', num), (''aria-label'', ''Footnote '' @ num)]
       [Text (''['' @ num @ '']'')]"

text \<open>
  The inner loop of \<open>wrapPlainTextNotes\<close> on the text of one node: \<open>r\<close> is
  \<^verbatim>\<open>regex.lastIndex\<close>, \<open>lastIndex\<close> and \<open>frag\<close> are the variables of the source. It returns the
  final \<open>lastIndex\<close> and the fragment.
\<close>

function wrap_matches ::
  "footnote_map \<Rightarrow> string \<Rightarrow> nat \<Rightarrow> nat \<Rightarrow> node list \<Rightarrow> nat \<times> node list"
where
  "wrap_matches footnotes txt r lastIndex frag =
     (case exec txt r of
        None \<Rightarrow> (lastIndex, frag)
      | Some (index, num, r') \<Rightarrow>
          if \<not> has footnotes num then wrap_matches footnotes txt r' lastIndex frag
          else
            wrap_matches footnotes txt r' (index + (length num + 2))
              ((if lastIndex < index then frag @ [Text (slice txt lastIndex index)] else frag)
                 @ [button num]))"
  by pat_completeness auto
termination
proof (relation "measure (\<lambda>(footnotes, txt, r, lastIndex, frag). length txt - r)")
  show "wf (measure (\<lambda>(footnotes, txt, r, lastIndex, frag). length txt - r))" by simp
qed (auto dest!: exec_SomeD)

declare wrap_matches.simps [simp del]

text \<open>
  What one accepted text node is replaced by: the node itself when no control was made
  (\<^verbatim>\<open>lastIndex === 0\<close>), else the children of the fragment.
\<close>

definition wrap_text :: "footnote_map \<Rightarrow> string \<Rightarrow> node list" where
  "wrap_text footnotes txt =
     (let (lastIndex, frag) = wrap_matches footnotes txt 0 0 [] in
      if lastIndex = 0 then [Text txt]
      else if lastIndex < length txt then frag @ [Text (slice txt lastIndex (length txt))]
      else frag)"

text \<open>
  The tree walk and the replacement of the accepted text nodes. \<open>rejected\<close> tells that the
  parent of the node, or an ancestor of it, is a \<^verbatim>\<open>div.text-xs\<close> or carries \<^verbatim>\<open>data-fn\<close>. The
  prose container is the root of the modelled tree; the elements above it in the page are
  taken to be neither.
\<close>

fun wrap_plain :: "footnote_map \<Rightarrow> bool \<Rightarrow> node \<Rightarrow> node list" where
  "wrap_plain footnotes rejected (Text s) =
     (if rejected then [Text s]
      else if test s then wrap_text footnotes s
      else [Text s])"
| "wrap_plain footnotes rejected (Element tag attrs cs) =
     [Element tag attrs
        (concat (map (wrap_plain footnotes (rejected \<or> is_notes_div tag attrs \<or> has_data_fn attrs)) cs))]"

fun wrapPlainTextNotes :: "footnote_map \<Rightarrow> node \<Rightarrow> node" where
  "wrapPlainTextNotes footnotes (Text s) = Text s"
| "wrapPlainTextNotes footnotes (Element tag attrs cs) =
     Element tag attrs
       (concat (map (wrap_plain footnotes (is_notes_div tag attrs \<or> has_data_fn attrs)) cs))"

text \<open>
  \<^verbatim>\<open>prev.textContent.replace(/\[\s*$/, "")\<close> and \<^verbatim>\<open>next.textContent.replace(/^\s*\]/, "")\<close>.
\<close>

fun strip_open :: "string \<Rightarrow> string" where
  "strip_open [] = []"
| "strip_open (c # s) = (if c = CHR ''['' \<and> all_whitespace s then [] else c # strip_open s)"

definition strip_close :: "string \<Rightarrow> string" where
  "strip_close s = (case trimStart s of [] \<Rightarrow> s | c # r \<Rightarrow> if c = CHR '']'' then r else s)"

definition strip_prev :: "node list \<Rightarrow> node list" where
  "strip_prev done = (case done of Text p # d \<Rightarrow> Text (strip_open p) # d | _ \<Rightarrow> done)"

definition strip_next :: "node list \<Rightarrow> node list" where
  "strip_next rest = (case rest of Text q # r \<Rightarrow> Text (strip_close q) # r | _ \<Rightarrow> rest)"

text \<open>
  The checks of the loop body of \<open>wrapLinkedNotes\<close> for one node of the parent's children:
  the number of the control to create, if the node is a link that is to be replaced.
  \<open>in_fn\<close> tells that the parent or an ancestor of it carries \<^verbatim>\<open>data-fn\<close>.
\<close>

fun linked_citation :: "footnote_map \<Rightarrow> bool \<Rightarrow> node \<Rightarrow> string option" where
  "linked_citation footnotes in_fn (Text s) = None"
| "linked_citation footnotes in_fn (Element tag attrs cs) =
     (if is_fragment_link tag attrs then
        (let num = trim (textContent (Element tag attrs cs)) in
         if num = [] \<or> \<not> has footnotes num then None
         else if in_fn then None
         else Some num)
      else None)"

fun node_size :: "node \<Rightarrow> nat" where
  "node_size (Text s) = 1"
| "node_size (Element tag attrs cs) = Suc (sum_list (map node_size cs))"

text \<open>
  The links are visited in document order. \<open>wrap_links\<close> walks the children of one parent
  from left to right: \<open>done\<close> holds the children already visited (last one first), in their
  current state, so that its head is the \<^verbatim>\<open>previousSibling\<close> of the node visited next. A
  link that is replaced takes its subtree out of the document; the links below a node that
  stays are visited before the node's next sibling.
\<close>

function wrap_links_node :: "footnote_map \<Rightarrow> bool \<Rightarrow> node \<Rightarrow> node"
  and wrap_links :: "footnote_map \<Rightarrow> bool \<Rightarrow> node list \<Rightarrow> node list \<Rightarrow> node list"
where
  "wrap_links_node footnotes in_fn (Text s) = Text s"
| "wrap_links_node footnotes in_fn (Element tag attrs cs) =
     Element tag attrs (wrap_links footnotes (in_fn \<or> has_data_fn attrs) [] cs)"
| "wrap_links footnotes in_fn done [] = rev done"
| "wrap_links footnotes in_fn done (c # rest) =
     (case linked_citation footnotes in_fn c of
        Some num \<Rightarrow> wrap_links footnotes in_fn (button num # strip_prev done) (strip_next rest)
      | None \<Rightarrow> wrap_links footnotes in_fn (wrap_links_node footnotes in_fn c # done) rest)"
  by pat_completeness auto
termination
proof -
  have pos: "0 < node_size n" for n
    by (cases n) simp_all
  show ?thesis
    by (relation "measure (\<lambda>x. case x of
          Inl (footnotes, in_fn, n) \<Rightarrow> 2 * node_size n
        | Inr (footnotes, in_fn, done, todo) \<Rightarrow> 2 * sum_list (map node_size todo) + 1)")
      (auto simp add: strip_next_def pos split: list.splits node.splits)
qed

definition wrapLinkedNotes :: "footnote_map \<Rightarrow> node \<Rightarrow> node" where
  "wrapLinkedNotes footnotes prose = wrap_links_node footnotes False prose"

text \<open>The part of \<open>initFootnotes\<close> that rewrites the tree.\<close>

definition initFootnotes :: "(node \<Rightarrow> string) \<Rightarrow> (string \<Rightarrow> string) \<Rightarrow> node \<Rightarrow> node" where
  "initFootnotes innerHTML html_text prose =
     (let footnotes = parseFootnotes innerHTML html_text prose in
      if length footnotes = 0 then prose
      else wrapPlainTextNotes footnotes (wrapLinkedNotes footnotes prose))"


subsection \<open>Citations of a text, as the specification words them\<close>

text \<open>
  A text read from left to right is a sequence of markers \<^verbatim>\<open>[N]\<close> and single characters.
  Its plain-text citations are the numbers of its markers.
\<close>

datatype token = Marker string | Char char

function tokens :: "string \<Rightarrow> token list" where
  "tokens [] = []"
| "tokens (c # s) =
     (case match_marker (c # s) of
        Some (num, rest) \<Rightarrow> Marker num # tokens rest
      | None \<Rightarrow> Char c # tokens s)"
  by pat_completeness auto
termination
proof (relation "measure length")
  show "wf (measure (length :: string \<Rightarrow> nat))" by simp
qed (auto dest!: match_marker_SomeD)

fun token_text :: "token \<Rightarrow> string" where
  "token_text (Marker num) = CHR ''['' # num @ '']''"
| "token_text (Char c) = [c]"

fun marker_numbers :: "token list \<Rightarrow> string list" where
  "marker_numbers [] = []"
| "marker_numbers (Marker num # ts) = num # marker_numbers ts"
| "marker_numbers (Char c # ts) = marker_numbers ts"

definition citations :: "string \<Rightarrow> string list" where
  "citations s = marker_numbers (tokens s)"

text \<open>The citations of a text whose number has a definition.\<close>

definition defined_citations :: "footnote_map \<Rightarrow> string \<Rightarrow> string list" where
  "defined_citations footnotes s = filter (has footnotes) (citations s)"

text \<open>
  Replacing the defined citations of a token sequence by controls and keeping everything
  else as text; \<open>pending\<close> is the text collected since the last control.
\<close>

definition text_node :: "string \<Rightarrow> node list" where
  "text_node s = (if s = [] then [] else [Text s])"

fun pieces :: "footnote_map \<Rightarrow> string \<Rightarrow> token list \<Rightarrow> node list" where
  "pieces footnotes pending [] = text_node pending"
| "pieces footnotes pending (Marker num # ts) =
     (if has footnotes num then text_node pending @ button num # pieces footnotes [] ts
      else pieces footnotes (pending @ token_text (Marker num)) ts)"
| "pieces footnotes pending (Char c # ts) = pieces footnotes (pending @ [c]) ts"

text \<open>
  A node that the plain-text pass leaves as it is wherever it stands: a control made by
  the engine, or a text without a defined citation.
\<close>

definition settled :: "footnote_map \<Rightarrow> node \<Rightarrow> bool" where
  "settled footnotes x \<longleftrightarrow>
     (\<exists>n. x = button n) \<or> (\<exists>p. x = Text p \<and> defined_citations footnotes p = [])"

fun is_element :: "node \<Rightarrow> bool" where
  "is_element (Text s) = False"
| "is_element (Element tag attrs cs) = True"

text \<open>
  The controls of a tree in document order: for every element that carries \<^verbatim>\<open>data-fn\<close>, its
  number and its accessible label.
\<close>

fun controls :: "node \<Rightarrow> (string \<times> string option) list" where
  "controls (Text s) = []"
| "controls (Element tag attrs cs) =
     (case getAttribute attrs ''data-fn'' of
        None \<Rightarrow> []
      | Some n \<Rightarrow> [(n, getAttribute attrs ''aria-label'')])
     @ concat (map controls cs)"

text \<open>The control that the engine makes for a number, as \<open>controls\<close> reports it.\<close>

definition control_of :: "string \<Rightarrow> string \<times> string option" where
  "control_of n = (n, Some (''Footnote '' @ n))"


subsection \<open>Definition extraction, as the specification words it\<close>

text \<open>A string is trimmed when it neither starts nor ends with a white-space character.\<close>

definition starts_with_whitespace :: "string \<Rightarrow> bool" where
  "starts_with_whitespace s \<longleftrightarrow> list_ex (\<lambda>w. prefix w s) js_whitespace"

definition ends_with_whitespace :: "string \<Rightarrow> bool" where
  "ends_with_whitespace s \<longleftrightarrow> list_ex (\<lambda>w. suffix w s) js_whitespace"

definition trimmed :: "string \<Rightarrow> bool" where
  "trimmed s \<longleftrightarrow> \<not> starts_with_whitespace s \<and> \<not> ends_with_whitespace s"

text \<open>
  The bodies of a notes text: for every marker, its number and the segment from the marker
  to the next one (or to the end).
\<close>

fun is_marker :: "token \<Rightarrow> bool" where
  "is_marker (Marker num) = True"
| "is_marker (Char c) = False"

fun bodies :: "token list \<Rightarrow> (string \<times> string) list" where
  "bodies [] = []"
| "bodies (Char c # ts) = bodies ts"
| "bodies (Marker num # ts) =
     (num, concat (map token_text (takeWhile (\<lambda>t. \<not> is_marker t) ts))) # bodies ts"

definition marker_bodies :: "string \<Rightarrow> (string \<times> string) list" where
  "marker_bodies html = bodies (tokens html)"

text \<open>
  The definitions of a notes text: each body stripped to plain text and trimmed, the empty
  ones discarded.
\<close>

definition definition_entries :: "(string \<Rightarrow> string) \<Rightarrow> string \<Rightarrow> (string \<times> string) list" where
  "definition_entries html_text html =
     filter (\<lambda>e. snd e \<noteq> []) (map (\<lambda>(num, raw). (num, trim (html_text raw))) (marker_bodies html))"

text \<open>
  The notes blocks of the prose: the \<^verbatim>\<open>div.text-xs\<close> elements below the container whose
  heading (their first \<^verbatim>\<open>strong\<close> element) has a text that starts with \<^verbatim>\<open>Notes\<close>.
\<close>

definition notes_heading :: "node \<Rightarrow> bool" where
  "notes_heading b =
     (case find matches_strong (descendants b) of
        None \<Rightarrow> False
      | Some strong \<Rightarrow> prefix ''Notes'' (textContent strong))"

definition notes_blocks :: "node \<Rightarrow> node list" where
  "notes_blocks prose = filter notes_heading (filter matches_notes_div (descendants prose))"

definition map_set :: "footnote_map \<Rightarrow> string \<times> string \<Rightarrow> footnote_map" where
  "map_set m e = AList.update (fst e) (snd e) m"

text \<open>
  Auxiliary views of the array that \<^verbatim>\<open>split\<close> returns: the text before the first marker, and
  the numbers and bodies in alternation.
\<close>

definition lead :: "token list \<Rightarrow> string" where
  "lead ts = concat (map token_text (takeWhile (\<lambda>t. \<not> is_marker t) ts))"

definition flat :: "(string \<times> string) list \<Rightarrow> string list" where
  "flat bs = concat (map (\<lambda>b. [fst b, snd b]) bs)"

definition entries_of :: "(string \<Rightarrow> string) \<Rightarrow> (string \<times> string) list \<Rightarrow> (string \<times> string) list" where
  "entries_of h bs = filter (\<lambda>e. snd e \<noteq> []) (map (\<lambda>(num, raw). (num, trim (h raw))) bs)"

subsection \<open>The controls that citation discovery is to produce\<close>

text \<open>
  A linked-style citation: a hyperlink whose target starts with \<^verbatim>\<open>#f\<close> and whose text, trimmed,
  is a number that has a definition.
\<close>

fun linked_style :: "footnote_map \<Rightarrow> node \<Rightarrow> string option" where
  "linked_style footnotes (Text s) = None"
| "linked_style footnotes (Element tag attrs cs) =
     (let num = trim (concat (map textContent cs)) in
      if tag = ''a'' \<and>
         (case getAttribute attrs ''href'' of None \<Rightarrow> False | Some target \<Rightarrow> prefix ''#f'' target) \<and>
         num \<noteq> [] \<and> has footnotes num
      then Some num else None)"

definition own_control :: "(string \<times> string) list \<Rightarrow> (string \<times> string option) list" where
  "own_control attrs =
     (case getAttribute attrs ''data-fn'' of
        None \<Rightarrow> []
      | Some n \<Rightarrow> [(n, getAttribute attrs ''aria-label'')])"

text \<open>
  The controls expected below a node, in document order. \<open>in_fn\<close>: the node stands inside
  an element that carries \<^verbatim>\<open>data-fn\<close>; \<open>in_notes\<close>: it stands inside a \<^verbatim>\<open>div.text-xs\<close>. A
  linked-style citation outside every \<^verbatim>\<open>data-fn\<close> element gives one control and nothing
  else; any other element keeps its own control, if it is one, and passes on to its
  children; a text outside the notes blocks and outside every \<^verbatim>\<open>data-fn\<close> element gives one
  control for each of its defined citations.
\<close>

fun expected :: "footnote_map \<Rightarrow> bool \<Rightarrow> bool \<Rightarrow> node \<Rightarrow> (string \<times> string option) list" where
  "expected footnotes in_fn in_notes (Text s) =
     (if in_fn \<or> in_notes then [] else map control_of (defined_citations footnotes s))"
| "expected footnotes in_fn in_notes (Element tag attrs cs) =
     (case (if in_fn then None else linked_style footnotes (Element tag attrs cs)) of
        Some num \<Rightarrow> [control_of num]
      | None \<Rightarrow>
          own_control attrs @
          concat (map (expected footnotes (in_fn \<or> has_data_fn attrs)
                         (in_notes \<or> is_notes_div tag attrs)) cs))"

fun expected_controls :: "footnote_map \<Rightarrow> node \<Rightarrow> (string \<times> string option) list" where
  "expected_controls footnotes (Text s) = []"
| "expected_controls footnotes (Element tag attrs cs) =
     own_control attrs @
     concat (map (expected footnotes (has_data_fn attrs) (is_notes_div tag attrs)) cs)"

subsection \<open>Auxiliary notions of the proofs\<close>

text \<open>What the source appends after its inner loop.\<close>

definition finish :: "string \<Rightarrow> nat \<times> node list \<Rightarrow> node list" where
  "finish s res =
     (if fst res < length s then snd res @ [Text (slice s (fst res) (length s))] else snd res)"

text \<open>The controls of a list of siblings after the plain-text pass.\<close>

definition plain_controls ::
  "footnote_map \<Rightarrow> bool \<Rightarrow> node list \<Rightarrow> (string \<times> string option) list"
where
  "plain_controls footnotes rejected xs =
     concat (map controls (concat (map (wrap_plain footnotes rejected) xs)))"


section \<open>Footnote engine: the popover\<close>

text \<open>
  The module variables \<open>activeTooltip\<close>, \<open>activeSheet\<close> and \<open>backdrop\<close> hold handles of
  elements that the engine appended to \<^verbatim>\<open>document.body\<close>. An element is identified by the
  number it got when it was created. A dismissed sheet or backdrop is not removed at once:
  its removal is scheduled twice, on \<^verbatim>\<open>transitionend\<close> and after 300 ms, and \<open>scheduled\<close>
  lists the elements that wait for it. (Positioning, styles, touch tracking and the
  document listeners for outside clicks and Escape are left out; what they trigger is the
  call of \<open>dismissAll\<close>.)
\<close>

datatype popover_kind = Tooltip | Backdrop | Sheet

record popover_element =
  el_id :: nat
  kind :: popover_kind
  label :: string
  content :: string

record footnote_ui =
  activeTooltip :: "nat option"
  activeSheet :: "nat option"
  backdrop :: "nat option"
  document_body :: "popover_element list"
  scheduled :: "nat list"
  next_id :: nat

definition ui_initial :: footnote_ui where
  "ui_initial = \<lparr>activeTooltip = None, activeSheet = None, backdrop = None, document_body = [],
     scheduled = [], next_id = 0\<rparr>"

text \<open>\<^verbatim>\<open>element.remove()\<close>\<close>

definition remove_element :: "nat \<Rightarrow> popover_element list \<Rightarrow> popover_element list" where
  "remove_element i es = filter (\<lambda>e. el_id e \<noteq> i) es"

definition dismissAll :: "footnote_ui \<Rightarrow> footnote_ui" where
  "dismissAll s =
     (let s = (case activeTooltip s of
                 None \<Rightarrow> s
               | Some t \<Rightarrow> s\<lparr>document_body := remove_element t (document_body s),
                             activeTooltip := None\<rparr>);
          s = (case activeSheet s of
                 None \<Rightarrow> s
               | Some sh \<Rightarrow> s\<lparr>scheduled := scheduled s @ [sh], activeSheet := None\<rparr>);
          s = (case backdrop s of
                 None \<Rightarrow> s
               | Some b \<Rightarrow> s\<lparr>scheduled := scheduled s @ [b], backdrop := None\<rparr>)
      in s)"

definition showTooltip :: "string \<Rightarrow> footnote_ui \<Rightarrow> footnote_ui" where
  "showTooltip txt s =
     (let s = dismissAll s;
          tooltip = next_id s
      in s\<lparr>document_body := document_body s @
               [\<lparr>el_id = tooltip, kind = Tooltip, label = [], content = txt\<rparr>],
            next_id := Suc tooltip,
            activeTooltip := Some tooltip\<rparr>)"

definition showBottomSheet :: "string \<Rightarrow> string \<Rightarrow> footnote_ui \<Rightarrow> footnote_ui" where
  "showBottomSheet num txt s =
     (let s = dismissAll s;
          b = next_id s;
          s = s\<lparr>backdrop := Some b,
                document_body := document_body s @
                  [\<lparr>el_id = b, kind = Backdrop, label = [], content = []\<rparr>],
                next_id := Suc b\<rparr>;
          sheet = next_id s
      in s\<lparr>document_body := document_body s @
               [\<lparr>el_id = sheet, kind = Sheet, label = ''Note '' @ num, content = txt\<rparr>],
            next_id := Suc sheet,
            activeSheet := Some sheet\<rparr>)"

text \<open>
  The click handler that \<open>initFootnotes\<close> puts on the prose container, for an activation of
  the control with number \<open>num\<close>; \<open>mobile\<close> is \<^verbatim>\<open>isMobile()\<close> at that moment.
\<close>

definition activate :: "footnote_map \<Rightarrow> bool \<Rightarrow> string \<Rightarrow> footnote_ui \<Rightarrow> footnote_ui" where
  "activate footnotes mobile num s =
     (if num = [] \<or> \<not> has footnotes num then s
      else
        (case map_of footnotes num of
           None \<Rightarrow> s
         | Some txt \<Rightarrow> if mobile then showBottomSheet num txt s else showTooltip txt s))"

text \<open>A scheduled removal runs (the \<^verbatim>\<open>transitionend\<close> listener or the timer): \<^verbatim>\<open>s.remove()\<close>.\<close>

definition removal_fires :: "nat \<Rightarrow> footnote_ui \<Rightarrow> footnote_ui" where
  "removal_fires i s =
     (if i \<in> set (scheduled s)
      then s\<lparr>document_body := remove_element i (document_body s),
             scheduled := removeAll i (scheduled s)\<rparr>
      else s)"

text \<open>What can happen to the popover, and a run of such events from the initial state.\<close>

datatype ui_event = Activate bool string | Dismiss | Removal_fires nat

fun ui_step :: "footnote_map \<Rightarrow> footnote_ui \<Rightarrow> ui_event \<Rightarrow> footnote_ui" where
  "ui_step footnotes s (Activate mobile num) = activate footnotes mobile num s"
| "ui_step footnotes s Dismiss = dismissAll s"
| "ui_step footnotes s (Removal_fires i) = removal_fires i s"

definition ui_run :: "footnote_map \<Rightarrow> ui_event list \<Rightarrow> footnote_ui" where
  "ui_run footnotes events = foldl (ui_step footnotes) ui_initial events"

text \<open>All scheduled removals have run.\<close>

definition settle :: "footnote_ui \<Rightarrow> footnote_ui" where
  "settle s = foldl (\<lambda>s i. removal_fires i s) s (scheduled s)"

text \<open>
  The popovers in the document (a tooltip, or a sheet, which comes with its backdrop), the
  elements of the open popover, and the note that the open popover shows.
\<close>

definition popover_count :: "popover_element list \<Rightarrow> nat" where
  "popover_count es = length (filter (\<lambda>e. kind e = Tooltip \<or> kind e = Sheet) es)"

definition is_active :: "footnote_ui \<Rightarrow> popover_element \<Rightarrow> bool" where
  "is_active s e \<longleftrightarrow>
     activeTooltip s = Some (el_id e) \<or> activeSheet s = Some (el_id e) \<or> backdrop s = Some (el_id e)"

definition shown :: "footnote_ui \<Rightarrow> string list" where
  "shown s =
     map content (filter (\<lambda>e. activeTooltip s = Some (el_id e) \<or> activeSheet s = Some (el_id e))
       (document_body s))"

text \<open>The invariant of the popover state.\<close>

definition ui_inv :: "footnote_ui \<Rightarrow> bool" where
  "ui_inv s \<longleftrightarrow>
     distinct (map el_id (document_body s)) \<and>
     list_all (\<lambda>e. el_id e < next_id s) (document_body s) \<and>
     list_all (\<lambda>i. i < next_id s \<and> activeTooltip s \<noteq> Some i \<and> activeSheet s \<noteq> Some i \<and>
        backdrop s \<noteq> Some i) (scheduled s) \<and>
     (activeTooltip s = None \<or> (activeSheet s = None \<and> backdrop s = None)) \<and>
     (activeSheet s = None \<longleftrightarrow> backdrop s = None) \<and>
     (case activeTooltip s of None \<Rightarrow> True
      | Some t \<Rightarrow> list_ex (\<lambda>e. el_id e = t \<and> kind e = Tooltip) (document_body s)) \<and>
     (case activeSheet s of None \<Rightarrow> True
      | Some sh \<Rightarrow> list_ex (\<lambda>e. el_id e = sh \<and> kind e = Sheet) (document_body s)) \<and>
     (case backdrop s of None \<Rightarrow> True
      | Some b \<Rightarrow> list_ex (\<lambda>e. el_id e = b \<and> kind e = Backdrop) (document_body s)) \<and>
     list_all (\<lambda>e. if kind e = Tooltip then activeTooltip s = Some (el_id e)
                   else is_active s e \<or> el_id e \<in> set (scheduled s)) (document_body s)"


section \<open>Example data\<close>





text \<open>A storage whose three entries are corrupted, missing and empty.\<close>

definition damaged_storage :: localStorage where
  "damaged_storage =
     setItem (setItem Map.empty STORAGE_KEY ''{not json'') ANNOTATIONS_STORAGE_KEY []"

text \<open>A prose container with one paragraph and a notes block.\<close>

definition sample_notes :: node where
  "sample_notes =
     Element ''div'' [(''class'', ''text-xs'')]
       [Element ''strong'' [] [Text ''Notes''], Text ''[1] McCarthy, 1960. [2] '']"

definition sample_prose :: node where
  "sample_prose =
     Element ''div'' [(''class'', ''prose-pg'')]
       [Element ''p'' [] [Text ''Lisp [1] is old [2].''], sample_notes]"

text \<open>The serialisation of the children of the notes block.\<close>

definition sample_innerHTML :: "node \<Rightarrow> string" where
  "sample_innerHTML b =
     (if b = sample_notes then ''<strong>Notes</strong>[1] McCarthy, 1960. [2] '' else [])"

text \<open>A Definition Map with two notes.\<close>

definition two_notes :: footnote_map where
  "two_notes = [(''1'', ''First note''), (''2'', ''Second note'')]"

text \<open>
  A paragraph with a linked citation and a plain one, and a paragraph whose link points to
  another kind of fragment.
\<close>

definition linked_prose :: node where
  "linked_prose =
     Element ''div'' [(''class'', ''prose-pg'')]
       [Element ''p'' []
          [Text ''Lisp ['', Element ''a'' [(''href'', ''#f1n'')] [Text ''1''], Text ''] is old [1].''],
        sample_notes]"

definition anchor_prose :: node where
  "anchor_prose =
     Element ''div'' [(''class'', ''prose-pg'')]
       [Element ''p'' []
          [Text ''Lisp '', Element ''a'' [(''href'', ''#note1'')] [Text ''1''], Text '' is old.''],
        sample_notes]"


section \<open>Preference store: ranges of the ordinal fields, theme migration\<close>

lemma spread_in_range: "persisted_in_range p \<Longrightarrow> levels_in_range (spread_settings DEFAULTS p)"
  by (simp add: persisted_in_range_def levels_in_range_def spread_settings_def DEFAULTS_def
      split: option.splits)

lemma levels_theme_update: "levels_in_range (s\<lparr>theme := t\<rparr>) = levels_in_range s"
  by (simp add: levels_in_range_def)

lemma levels_DEFAULTS: "levels_in_range DEFAULTS"
  by (simp add: levels_in_range_def DEFAULTS_def)

lemma loadSettings_cases:
  "loadSettings J ls = DEFAULTS \<or>
   (\<exists>stored p. getItem ls STORAGE_KEY = Some stored \<and> parse J stored = Inr p \<and>
      (loadSettings J ls = spread_settings DEFAULTS p \<or>
       (\<exists>t. loadSettings J ls = (spread_settings DEFAULTS p)\<lparr>theme := t\<rparr>)))"
  by (auto simp add: loadSettings_def loadSettings_try_def Let_def split: option.splits sum.splits)

lemma loaded_in_range:
  assumes "\<And>s p. getItem ls STORAGE_KEY = Some s \<Longrightarrow> parse J s = Inr p \<Longrightarrow> persisted_in_range p"
  shows "levels_in_range (loadSettings J ls)"
  using loadSettings_cases [of J ls] assms
  by (auto simp add: levels_DEFAULTS spread_in_range levels_theme_update)

lemma adjustFontSize_result:
  "snd (adjustFontSize J delta ls) =
     (loadSettings J ls)\<lparr>fontSize := max 0 (min 4 (fontSize (loadSettings J ls) + delta))\<rparr>"
  by (simp add: adjustFontSize_def Let_def)

lemma cycleTheme_levels: "levels_in_range (snd (cycleTheme J ls)) = levels_in_range (loadSettings J ls)"
  by (simp add: cycleTheme_def Let_def levels_in_range_def)

text \<open>
  C6, as the code has it. \<open>adjustFontSize\<close> returns and saves the loaded record with the
  font-size level set to \<open>max 0 (min 4 (level + delta))\<close>: whatever was persisted, the
  resulting level is within \<open>0..4\<close>, and from level 2 a delta of \<open>-10\<close> gives level 0.
  \<open>loadSettings\<close> performs no clamping: the records produced by \<open>loadSettings\<close>,
  \<open>cycleTheme\<close> and \<open>adjustFontSize\<close> have both ordinal fields within their ranges
  (font size \<open>0..4\<close>, line height \<open>0..2\<close>) provided the persisted record, when one is stored
  and parses, has them in range.
\<close>

theorem adjustFontSize_clamps_levels_preserved:
  "fontSize (snd (adjustFontSize J delta ls)) = max 0 (min 4 (fontSize (loadSettings J ls) + delta)) \<and>
   0 \<le> fontSize (snd (adjustFontSize J delta ls)) \<and> fontSize (snd (adjustFontSize J delta ls)) \<le> 4 \<and>
   fst (adjustFontSize J delta ls) = setItem ls STORAGE_KEY (stringify J 0 (snd (adjustFontSize J delta ls))) \<and>
   (fontSize (loadSettings J ls) = 2 \<longrightarrow> fontSize (snd (adjustFontSize J (- 10) ls)) = 0) \<and>
   ((\<forall>s p. getItem ls STORAGE_KEY = Some s \<longrightarrow> parse J s = Inr p \<longrightarrow> persisted_in_range p) \<longrightarrow>
      levels_in_range (loadSettings J ls) \<and>
      levels_in_range (snd (cycleTheme J ls)) \<and>
      levels_in_range (snd (adjustFontSize J delta ls)))"
proof -
  have clamp: "fontSize (snd (adjustFontSize J d ls)) = max 0 (min 4 (fontSize (loadSettings J ls) + d))" for d
    by (simp add: adjustFontSize_result)
  have saved: "fst (adjustFontSize J delta ls) =
      setItem ls STORAGE_KEY (stringify J 0 (snd (adjustFontSize J delta ls)))"
    by (simp add: adjustFontSize_def Let_def saveSettings_def)
  have inv: "levels_in_range (loadSettings J ls) \<and> levels_in_range (snd (cycleTheme J ls)) \<and>
      levels_in_range (snd (adjustFontSize J delta ls))"
    if "\<forall>s p. getItem ls STORAGE_KEY = Some s \<longrightarrow> parse J s = Inr p \<longrightarrow> persisted_in_range p"
  proof -
    have l: "levels_in_range (loadSettings J ls)"
      using that by (intro loaded_in_range) blast
    then have "levels_in_range (snd (adjustFontSize J delta ls))"
      by (simp add: adjustFontSize_result levels_in_range_def)
    with l show ?thesis by (simp add: cycleTheme_levels)
  qed
  from clamp [of delta] clamp [of "- 10"] saved inv show ?thesis
    by auto
qed

theorem adjustFontSize_clamps_levels_preserved_witness:
  "fontSize (loadSettings (table_JSON [(''{}'', nothing_persisted)] ''{}'')
     (setItem Map.empty STORAGE_KEY ''{}'')) = 2 \<and>
   fontSize (snd (adjustFontSize (table_JSON [(''{}'', nothing_persisted)] ''{}'') (- 10)
     (setItem Map.empty STORAGE_KEY ''{}''))) = 0 \<and>
   levels_in_range (snd (adjustFontSize (table_JSON [(''{}'', nothing_persisted)] ''{}'') (- 10)
     (setItem Map.empty STORAGE_KEY ''{}'')))"
proof -
  let ?J = "table_JSON [(''{}'', nothing_persisted)] ''{}'' :: (PersistedSettings, ReaderSettings) JSON"
  let ?ls = "setItem Map.empty STORAGE_KEY ''{}''"
  have two: "fontSize (loadSettings ?J ?ls) = 2"
    by (simp add: loadSettings_def loadSettings_try_def getItem_def setItem_def table_JSON_def
        parse_table_def spread_settings_def DEFAULTS_def nothing_persisted_def
        THEME_MIGRATION_get_def THEME_MIGRATION_def Object_prototype_keys_def)
  have ok: "\<forall>s p. getItem ?ls STORAGE_KEY = Some s \<longrightarrow> parse ?J s = Inr p \<longrightarrow> persisted_in_range p"
    by (simp add: getItem_def setItem_def table_JSON_def parse_table_def persisted_in_range_def
        nothing_persisted_def)
  from adjustFontSize_clamps_levels_preserved [of ?J "- 10" ?ls] two ok show ?thesis
    by simp
qed

text \<open>
  C6 as stated fails: a persisted font-size level of 99 (and a line-height level of 7) is
  returned by \<open>loadSettings\<close> as it is stored.
\<close>

theorem loadSettings_out_of_range_counterexample:
  "fontSize (loadSettings
      (table_JSON [(''{'' @ quoted ''fontSize'' @ '':99,'' @ quoted ''lineHeight'' @ '':7}'',
          nothing_persisted\<lparr>p_fontSize := Some 99, p_lineHeight := Some 7\<rparr>)] ''{}'')
      (setItem Map.empty STORAGE_KEY
         (''{'' @ quoted ''fontSize'' @ '':99,'' @ quoted ''lineHeight'' @ '':7}''))) = 99 \<and>
   \<not> levels_in_range (loadSettings
      (table_JSON [(''{'' @ quoted ''fontSize'' @ '':99,'' @ quoted ''lineHeight'' @ '':7}'',
          nothing_persisted\<lparr>p_fontSize := Some 99, p_lineHeight := Some 7\<rparr>)] ''{}'')
      (setItem Map.empty STORAGE_KEY
         (''{'' @ quoted ''fontSize'' @ '':99,'' @ quoted ''lineHeight'' @ '':7}'')))"
  by (simp add: levels_in_range_def loadSettings_def loadSettings_try_def getItem_def setItem_def
      table_JSON_def parse_table_def quoted_def spread_settings_def DEFAULTS_def
      nothing_persisted_def THEME_MIGRATION_get_def THEME_MIGRATION_def Object_prototype_keys_def)

lemma THEME_MIGRATION_get_Str:
  "THEME_MIGRATION_get (Str t) =
     (if t = ''light'' then Some (Str ''white'')
      else if t = ''sepia'' then Some (Str ''tan'')
      else if t = ''dark'' then Some (Str ''black'')
      else if t \<in> set Object_prototype_keys then Some (Proto_member t)
      else None)"
  by (simp add: THEME_MIGRATION_get_def THEME_MIGRATION_def)

lemma current_not_migrated:
  "THEME_MIGRATION_get (Str ''white'') = None"
  "THEME_MIGRATION_get (Str ''tan'') = None"
  "THEME_MIGRATION_get (Str ''grey'') = None"
  "THEME_MIGRATION_get (Str ''black'') = None"
  by (simp_all add: THEME_MIGRATION_get_def THEME_MIGRATION_def Object_prototype_keys_def)

lemma themes_not_migrated: "t \<in> set themes \<Longrightarrow> THEME_MIGRATION_get (Str t) = None"
  unfolding themes_def using current_not_migrated by (elim disjE | simp)+

lemma current_in_themes:
  "''white'' \<in> set themes" "''tan'' \<in> set themes" "''black'' \<in> set themes"
  by (simp_all add: themes_def)

lemma loadSettings_theme:
  assumes "getItem ls STORAGE_KEY = Some stored" "stored \<noteq> []" "parse J stored = Inr p"
  shows "theme (loadSettings J ls) =
     (case p_theme p of
        None \<Rightarrow> Str ''white''
      | Some t \<Rightarrow> (case THEME_MIGRATION_get (Str t) of None \<Rightarrow> Str t | Some v \<Rightarrow> v))"
  using assms current_not_migrated(1)
  by (simp add: loadSettings_def loadSettings_try_def Let_def spread_settings_def DEFAULTS_def
      split: option.splits)

text \<open>
  C7, as the code has it. When a record is stored and parses, \<open>loadSettings\<close> rewrites the
  legacy theme values through the migration table (\<open>light\<close> to \<open>white\<close>, \<open>sepia\<close> to \<open>tan\<close>,
  \<open>dark\<close> to \<open>black\<close>), fills in \<open>white\<close> for a missing theme and returns a current value
  unchanged, so the loaded theme is one of \<open>white\<close>, \<open>tan\<close>, \<open>grey\<close>, \<open>black\<close> whenever the
  persisted theme is absent, legacy or current. Any other theme string is not rewritten: it
  is returned unchanged unless it names a member that the table inherits.
\<close>

theorem loadSettings_theme_migration:
  assumes "getItem ls STORAGE_KEY = Some stored" "stored \<noteq> []" "parse J stored = Inr p"
  shows
    "(p_theme p = Some ''light'' \<longrightarrow> theme (loadSettings J ls) = Str ''white'') \<and>
     (p_theme p = Some ''sepia'' \<longrightarrow> theme (loadSettings J ls) = Str ''tan'') \<and>
     (p_theme p = Some ''dark'' \<longrightarrow> theme (loadSettings J ls) = Str ''black'') \<and>
     (p_theme p = None \<longrightarrow> theme (loadSettings J ls) = Str ''white'') \<and>
     (\<forall>t. p_theme p = Some t \<and> t \<in> set themes \<longrightarrow> theme (loadSettings J ls) = Str t) \<and>
     (p_theme p \<in> {None} \<union> Some ` (set themes \<union> {''light'', ''sepia'', ''dark''}) \<longrightarrow>
        theme (loadSettings J ls) \<in> Str ` set themes) \<and>
     (\<forall>t. p_theme p = Some t \<and> t \<notin> {''light'', ''sepia'', ''dark''} \<and>
          t \<notin> set Object_prototype_keys \<longrightarrow> theme (loadSettings J ls) = Str t)"
proof -
  note th = loadSettings_theme [OF assms]
  have legacy: "p_theme p = Some ''light'' \<longrightarrow> theme (loadSettings J ls) = Str ''white''"
    "p_theme p = Some ''sepia'' \<longrightarrow> theme (loadSettings J ls) = Str ''tan''"
    "p_theme p = Some ''dark'' \<longrightarrow> theme (loadSettings J ls) = Str ''black''"
    "p_theme p = None \<longrightarrow> theme (loadSettings J ls) = Str ''white''"
    by (simp_all add: th THEME_MIGRATION_get_Str)
  have current: "\<forall>t. p_theme p = Some t \<and> t \<in> set themes \<longrightarrow> theme (loadSettings J ls) = Str t"
    by (simp add: th themes_not_migrated)
  have other: "\<forall>t. p_theme p = Some t \<and> t \<notin> {''light'', ''sepia'', ''dark''} \<and>
      t \<notin> set Object_prototype_keys \<longrightarrow> theme (loadSettings J ls) = Str t"
    by (simp add: th THEME_MIGRATION_get_Str)
  have known: "p_theme p \<in> {None} \<union> Some ` (set themes \<union> {''light'', ''sepia'', ''dark''}) \<longrightarrow>
      theme (loadSettings J ls) \<in> Str ` set themes"
  proof
    assume "p_theme p \<in> {None} \<union> Some ` (set themes \<union> {''light'', ''sepia'', ''dark''})"
    then have "p_theme p = None \<or> (\<exists>t. p_theme p = Some t \<and> t \<in> set themes) \<or>
        p_theme p = Some ''light'' \<or> p_theme p = Some ''sepia'' \<or> p_theme p = Some ''dark''"
      by (simp add: image_iff) metis
    then consider "p_theme p = None" | t where "p_theme p = Some t" "t \<in> set themes"
      | "p_theme p = Some ''light''" | "p_theme p = Some ''sepia''" | "p_theme p = Some ''dark''"
      by (elim disjE exE conjE)
    then show "theme (loadSettings J ls) \<in> Str ` set themes"
    proof cases
      case 2
      then show ?thesis using current by simp
    qed (use legacy current_in_themes in simp_all)
  qed
  show ?thesis
    by (intro conjI legacy current known other)
qed

theorem loadSettings_theme_migration_witness:
  "theme (loadSettings
      (table_JSON [(''{'' @ quoted ''theme'' @ '':'' @ quoted ''light'' @ ''}'',
          nothing_persisted\<lparr>p_theme := Some ''light''\<rparr>)] ''{}'')
      (setItem Map.empty STORAGE_KEY (''{'' @ quoted ''theme'' @ '':'' @ quoted ''light'' @ ''}'')))
   = Str ''white''"
proof -
  let ?txt = "''{'' @ quoted ''theme'' @ '':'' @ quoted ''light'' @ ''}''"
  let ?p = "nothing_persisted\<lparr>p_theme := Some ''light''\<rparr>"
  let ?J = "table_JSON [(?txt, ?p)] ''{}'' :: (PersistedSettings, ReaderSettings) JSON"
  let ?ls = "setItem Map.empty STORAGE_KEY ?txt"
  have a: "getItem ?ls STORAGE_KEY = Some ?txt" by (simp add: getItem_def setItem_def)
  have b: "?txt \<noteq> []" by simp
  have c: "parse ?J ?txt = Inr ?p" by (simp add: table_JSON_def parse_table_def)
  have d: "p_theme ?p = Some ''light''" by simp
  from loadSettings_theme_migration [OF a b c] d show ?thesis by simp
qed

text \<open>
  C7 as stated fails: an unknown theme value such as \<open>purple\<close> is not rewritten, and the
  loaded theme is then none of the current values.
\<close>

theorem loadSettings_unknown_theme_counterexample:
  "theme (loadSettings
      (table_JSON [(''{'' @ quoted ''theme'' @ '':'' @ quoted ''purple'' @ ''}'',
          nothing_persisted\<lparr>p_theme := Some ''purple''\<rparr>)] ''{}'')
      (setItem Map.empty STORAGE_KEY (''{'' @ quoted ''theme'' @ '':'' @ quoted ''purple'' @ ''}'')))
     = Str ''purple'' \<and>
   Str ''purple'' \<notin> Str ` set themes"
  by (simp add: loadSettings_def loadSettings_try_def getItem_def setItem_def
      table_JSON_def parse_table_def quoted_def spread_settings_def DEFAULTS_def themes_def
      nothing_persisted_def THEME_MIGRATION_get_def THEME_MIGRATION_def Object_prototype_keys_def)


section \<open>Progress store: the read flag and the frame of markAsRead\<close>
















section \<open>Annotation store: export\<close>












section \<open>Loading never fails\<close>

text \<open>
  C9. Each of the three load operations returns a value for every content of the storage
  and every behaviour of the parser: whenever the guarded block throws, the \<^verbatim>\<open>catch\<close> turns
  the failure into the default record, respectively the empty store; and when nothing
  usable is stored (no entry, the empty string, or a text the parser rejects) the result is
  the default record, respectively the empty store (given that \<^verbatim>\<open>JSON.parse("{}")\<close> is the
  empty object).
\<close>

theorem loads_never_fail:
  "(\<forall>e. loadSettings_try JS ls = Inl e \<longrightarrow> loadSettings JS ls = DEFAULTS) \<and>
   (\<forall>e. getHistory_try JH ls = Inl e \<longrightarrow> getHistory JH ls = []) \<and>
   (\<forall>e. getStore_try JA ls = Inl e \<longrightarrow> getStore JA ls = [] \<and> getAllAnnotations JA ls = []) \<and>
   (stored_unusable JS STORAGE_KEY ls \<longrightarrow> loadSettings JS ls = DEFAULTS) \<and>
   (parses_empty_object [] JH \<and> stored_unusable JH HISTORY_KEY ls \<longrightarrow> getHistory JH ls = []) \<and>
   (parses_empty_object [] JA \<and> stored_unusable JA ANNOTATIONS_STORAGE_KEY ls \<longrightarrow>
      getStore JA ls = [] \<and> getAllAnnotations JA ls = [])"
proof -
  have s: "stored_unusable JS STORAGE_KEY ls \<longrightarrow> loadSettings JS ls = DEFAULTS"
    by (auto simp add: stored_unusable_def loadSettings_def loadSettings_try_def
        split: option.splits sum.splits)
  have h: "parses_empty_object [] JH \<and> stored_unusable JH HISTORY_KEY ls \<longrightarrow> getHistory JH ls = []"
    by (auto simp add: stored_unusable_def parses_empty_object_def getHistory_def getHistory_try_def
        split: option.splits sum.splits)
  have a: "parses_empty_object [] JA \<and> stored_unusable JA ANNOTATIONS_STORAGE_KEY ls \<longrightarrow>
      getStore JA ls = [] \<and> getAllAnnotations JA ls = []"
    by (auto simp add: stored_unusable_def parses_empty_object_def getStore_def getStore_try_def
        getAllAnnotations_def split: option.splits sum.splits)
  have c: "\<forall>e. loadSettings_try JS ls = Inl e \<longrightarrow> loadSettings JS ls = DEFAULTS"
    "\<forall>e. getHistory_try JH ls = Inl e \<longrightarrow> getHistory JH ls = []"
    "\<forall>e. getStore_try JA ls = Inl e \<longrightarrow> getStore JA ls = [] \<and> getAllAnnotations JA ls = []"
    by (simp_all add: loadSettings_def getHistory_def getStore_def getAllAnnotations_def)
  show ?thesis
    by (intro conjI c s h a)
qed

theorem loads_never_fail_witness:
  "stored_unusable (table_JSON [(''{}'', nothing_persisted)] ''{}'' :: (PersistedSettings, ReaderSettings) JSON)
     STORAGE_KEY damaged_storage \<and>
   loadSettings (table_JSON [(''{}'', nothing_persisted)] ''{}'') damaged_storage = DEFAULTS \<and>
   getHistory (table_JSON [(''{}'', [])] ''{}'') damaged_storage = [] \<and>
   getStore (table_JSON [(''{}'', [])] ''{}'') damaged_storage = []"
proof -
  let ?JS = "table_JSON [(''{}'', nothing_persisted)] ''{}'' :: (PersistedSettings, ReaderSettings) JSON"
  let ?JH = "table_JSON [(''{}'', [])] ''{}'' :: (ReadingHistory, ReadingHistory) JSON"
  let ?JA = "table_JSON [(''{}'', [])] ''{}'' :: (AnnotationStore, AnnotationStore) JSON"
  have s: "stored_unusable ?JS STORAGE_KEY damaged_storage"
    by (simp add: stored_unusable_def damaged_storage_def getItem_def setItem_def table_JSON_def
        parse_table_def STORAGE_KEY_def ANNOTATIONS_STORAGE_KEY_def)
  have h: "parses_empty_object [] ?JH \<and> stored_unusable ?JH HISTORY_KEY damaged_storage"
    by (simp add: stored_unusable_def damaged_storage_def getItem_def setItem_def table_JSON_def
        parse_table_def parses_empty_object_def STORAGE_KEY_def ANNOTATIONS_STORAGE_KEY_def
        HISTORY_KEY_def)
  have a: "parses_empty_object [] ?JA \<and> stored_unusable ?JA ANNOTATIONS_STORAGE_KEY damaged_storage"
    by (simp add: stored_unusable_def damaged_storage_def getItem_def setItem_def table_JSON_def
        parse_table_def parses_empty_object_def)
  from loads_never_fail [of ?JS damaged_storage ?JH ?JA] s h a show ?thesis
    by simp
qed


section \<open>Footnote engine: markers, tokens and the scan of one text node\<close>

lemma not_digit_close: "\<not> is_digit (CHR '']'')"
  by (simp add: is_digit_def)

lemma not_digit_open: "\<not> is_digit (CHR ''['')"
  by (simp add: is_digit_def)

lemma match_marker_intro:
  assumes "num \<noteq> []" "\<forall>c\<in>set num. is_digit c"
  shows "match_marker (CHR ''['' # num @ CHR '']'' # rest) = Some (num, rest)"
proof -
  have tw: "takeWhile is_digit (num @ CHR '']'' # rest) = num"
    using assms(2) not_digit_close by (simp add: takeWhile_append2)
  have dw: "dropWhile is_digit (num @ CHR '']'' # rest) = CHR '']'' # rest"
    using assms(2) not_digit_close by (simp add: dropWhile_append2)
  show ?thesis
    unfolding match_marker_def using assms(1)
    by (simp only: list.case tw dw Let_def) simp
qed

lemma match_marker_Some_iff:
  "match_marker s = Some (num, rest) \<longleftrightarrow>
     s = CHR ''['' # num @ CHR '']'' # rest \<and> num \<noteq> [] \<and> (\<forall>c\<in>set num. is_digit c)"
  using match_marker_SomeD match_marker_intro by metis

lemma match_marker_append:
  "match_marker s = Some (num, rest) \<Longrightarrow> match_marker (s @ y) = Some (num, rest @ y)"
  by (simp add: match_marker_Some_iff)

lemma match_marker_not_open: "c \<noteq> CHR ''['' \<Longrightarrow> match_marker (c # s) = None"
  by (simp add: match_marker_def)

lemma concat_token_text_tokens: "concat (map token_text (tokens s)) = s"
proof (induction s rule: tokens.induct)
  case 1
  show ?case by simp
next
  case (2 c s)
  show ?case
  proof (cases "match_marker (c # s)")
    case None
    with 2 show ?thesis by simp
  next
    case (Some m)
    obtain num rest where m: "m = (num, rest)" by (cases m)
    from 2(2) [OF Some m [symmetric]] have "concat (map token_text (tokens rest)) = rest" .
    moreover from match_marker_SomeD [OF Some [unfolded m]]
    have "c # s = CHR ''['' # num @ CHR '']'' # rest" by simp
    ultimately show ?thesis using Some m by simp
  qed
qed

lemma find_marker_None_tokens: "find_marker s i = None \<Longrightarrow> tokens s = map Char s"
  by (induction s arbitrary: i) (auto split: option.splits)

lemma find_marker_Some_tokens:
  "find_marker s i = Some (index, num, r') \<Longrightarrow>
     \<exists>pre rest. s = pre @ CHR ''['' # num @ CHR '']'' # rest \<and> index = i + length pre \<and>
       r' = index + length num + 2 \<and> tokens s = map Char pre @ Marker num # tokens rest"
proof (induction s arbitrary: i)
  case Nil then show ?case by simp
next
  case (Cons c s)
  show ?case
  proof (cases "match_marker (c # s)")
    case None
    with Cons.prems have "find_marker s (Suc i) = Some (index, num, r')" by simp
    from Cons.IH [OF this] obtain pre rest where
      "s = pre @ CHR ''['' # num @ CHR '']'' # rest" "index = Suc i + length pre"
      "r' = index + length num + 2" "tokens s = map Char pre @ Marker num # tokens rest"
      by blast
    then have "c # s = (c # pre) @ CHR ''['' # num @ CHR '']'' # rest \<and> index = i + length (c # pre) \<and>
       r' = index + length num + 2 \<and> tokens (c # s) = map Char (c # pre) @ Marker num # tokens rest"
      using None by simp
    then show ?thesis by blast
  next
    case (Some m)
    obtain n rest where m: "m = (n, rest)" by (cases m)
    from Some m Cons.prems have e: "index = i" "num = n" "r' = i + length n + 2" by auto
    from match_marker_SomeD [OF Some [unfolded m]] have "c # s = CHR ''['' # n @ CHR '']'' # rest"
      by simp
    then have "c # s = [] @ CHR ''['' # num @ CHR '']'' # rest \<and> index = i + length ([] :: string) \<and>
       r' = index + length num + 2 \<and> tokens (c # s) = map Char [] @ Marker num # tokens rest"
      using e Some m by simp
    then show ?thesis by blast
  qed
qed

lemma pieces_Chars: "pieces fn pending (map Char pre @ ts) = pieces fn (pending @ pre) ts"
  by (induction pre arbitrary: pending) simp_all

lemma slice_extend:
  assumes "drop r tx = a @ b" "li \<le> r"
  shows "slice tx li (r + length a) = slice tx li r @ a" and "drop (r + length a) tx = b"
proof -
  have r: "r \<le> length tx \<or> (a = [] \<and> b = [])"
    using assms(1) by (cases "r \<le> length tx") auto
  have t: "tx = take r tx @ a @ b"
    using assms(1) by (metis append_take_drop_id)
  show "drop (r + length a) tx = b"
    using assms(1) by (metis add.commute append_eq_conv_conj drop_drop)
  have "take (r + length a) tx = take r tx @ a"
    using assms(1) by (metis append_eq_conv_conj take_add)
  then have "drop li (take (r + length a) tx) = drop li (take r tx) @ a"
    using assms(2) r by auto
  then show "slice tx li (r + length a) = slice tx li r @ a"
    by (simp add: slice_def drop_take)
qed

lemma wrap_matches_pieces:
  "lastIndex \<le> r \<Longrightarrow> r \<le> length tx \<Longrightarrow>
     finish tx (wrap_matches fn tx r lastIndex frag) =
       frag @ pieces fn (slice tx lastIndex r) (tokens (drop r tx))"
proof (induction fn tx r lastIndex frag rule: wrap_matches.induct)
  case (1 fn tx r lastIndex frag)
  show ?case
  proof (cases "exec tx r")
    case None
    then have tk: "tokens (drop r tx) = map Char (drop r tx)"
      by (simp add: exec_def find_marker_None_tokens)
    have "slice tx lastIndex r @ drop r tx = drop lastIndex tx"
      using slice_extend(1) [of lastIndex tx "drop lastIndex tx" "[]" lastIndex] "1.prems"
      by (simp add: slice_def) (metis append_take_drop_id drop_drop le_add_diff_inverse2)
    then have "pieces fn (slice tx lastIndex r) (tokens (drop r tx)) = text_node (drop lastIndex tx)"
      using pieces_Chars [of fn "slice tx lastIndex r" "drop r tx" "[]"] tk by simp
    moreover have "wrap_matches fn tx r lastIndex frag = (lastIndex, frag)"
      using None by (subst wrap_matches.simps) simp
    ultimately show ?thesis
      by (simp add: finish_def text_node_def slice_def)
  next
    case (Some m)
    obtain index num r' where m: "m = (index, num, r')" by (cases m)
    from Some m have ex: "exec tx r = Some (index, num, r')" by simp
    from find_marker_Some_tokens [OF ex [unfolded exec_def]] obtain pre rest where
      d: "drop r tx = pre @ CHR ''['' # num @ CHR '']'' # rest" and
      idx: "index = r + length pre" and r': "r' = index + length num + 2" and
      tk: "tokens (drop r tx) = map Char pre @ Marker num # tokens rest"
      by blast
    from exec_SomeD [OF ex] have b: "r < r'" "r' \<le> length tx" by simp_all
    have d': "drop r tx = (pre @ CHR ''['' # num @ '']'') @ rest"
      using d by simp
    have len: "r + length (pre @ CHR ''['' # num @ '']'') = r'"
      using idx r' by simp
    from slice_extend [OF d' "1.prems"(1)] len
    have s1: "slice tx lastIndex r' = slice tx lastIndex r @ pre @ CHR ''['' # num @ '']''"
      and rest: "drop r' tx = rest" by simp_all
    have d'': "drop r tx = pre @ (CHR ''['' # num @ CHR '']'' # rest)"
      using d by simp
    from slice_extend(1) [OF d'' "1.prems"(1)] idx
    have s2: "slice tx lastIndex index = slice tx lastIndex r @ pre" by simp
    show ?thesis
    proof (cases "has fn num")
      case False
      have "wrap_matches fn tx r lastIndex frag = wrap_matches fn tx r' lastIndex frag"
        using ex False by (subst wrap_matches.simps) simp
      moreover have "finish tx (wrap_matches fn tx r' lastIndex frag) =
          frag @ pieces fn (slice tx lastIndex r') (tokens (drop r' tx))"
        using "1.IH"(1) [OF ex refl refl False] "1.prems" b
        by simp
      moreover have "pieces fn (slice tx lastIndex r) (tokens (drop r tx)) =
          pieces fn (slice tx lastIndex r') (tokens rest)"
        using False by (simp add: tk pieces_Chars s1)
      ultimately show ?thesis by (simp add: rest)
    next
      case True
      let ?frag = "(if lastIndex < index then frag @ [Text (slice tx lastIndex index)] else frag)
                 @ [button num]"
      have "wrap_matches fn tx r lastIndex frag = wrap_matches fn tx r' r' ?frag"
        using ex True r' by (subst wrap_matches.simps) (simp add: add.assoc)
      moreover have "finish tx (wrap_matches fn tx r' r' ?frag) =
          ?frag @ pieces fn (slice tx r' r') (tokens (drop r' tx))"
        using "1.IH"(2) [OF ex refl refl] True b r'
        by (simp add: add.assoc)
      moreover have "slice tx r' r' = []" by (simp add: slice_def)
      moreover have "length (slice tx lastIndex index) = index - lastIndex"
        using b r' by (simp add: slice_def)
      then have "slice tx lastIndex index \<noteq> [] \<longleftrightarrow> lastIndex < index"
        by (metis length_greater_0_conv zero_less_diff)
      then have "text_node (slice tx lastIndex index) =
          (if lastIndex < index then [Text (slice tx lastIndex index)] else [])"
        unfolding text_node_def by (cases "lastIndex < index") simp_all
      then have "frag @ pieces fn (slice tx lastIndex r) (tokens (drop r tx)) =
          ?frag @ pieces fn [] (tokens rest)"
        using True by (simp add: tk pieces_Chars s2)
      ultimately show ?thesis by (simp add: rest)
    qed
  qed
qed

lemma wrap_matches_fst:
  "r \<le> length tx \<Longrightarrow>
     fst (wrap_matches fn tx r lastIndex frag) = 0 \<longleftrightarrow>
       lastIndex = 0 \<and> filter (has fn) (marker_numbers (tokens (drop r tx))) = []"
proof (induction fn tx r lastIndex frag rule: wrap_matches.induct)
  case (1 fn tx r lastIndex frag)
  show ?case
  proof (cases "exec tx r")
    case None
    then have "tokens (drop r tx) = map Char (drop r tx)"
      by (simp add: exec_def find_marker_None_tokens)
    moreover have "marker_numbers (map Char x) = []" for x
      by (induction x) simp_all
    ultimately show ?thesis using None by (subst wrap_matches.simps) simp
  next
    case (Some m)
    obtain index num r' where m: "m = (index, num, r')" by (cases m)
    from Some m have ex: "exec tx r = Some (index, num, r')" by simp
    from find_marker_Some_tokens [OF ex [unfolded exec_def]] obtain pre rest where
      d: "drop r tx = pre @ CHR ''['' # num @ CHR '']'' # rest" and
      idx: "index = r + length pre" and r': "r' = index + length num + 2" and
      tk: "tokens (drop r tx) = map Char pre @ Marker num # tokens rest"
      by blast
    from exec_SomeD [OF ex] have b: "r < r'" "r' \<le> length tx" by simp_all
    have d': "drop r tx = (pre @ CHR ''['' # num @ '']'') @ rest"
      using d by simp
    have len: "r + length (pre @ CHR ''['' # num @ '']'') = r'"
      using idx r' by simp
    from slice_extend(2) [OF d' le_refl] len have rest: "drop r' tx = rest" by simp
    have mn: "marker_numbers (map Char x @ ts) = marker_numbers ts" for x ts
      by (induction x) simp_all
    show ?thesis
    proof (cases "has fn num")
      case False
      have "wrap_matches fn tx r lastIndex frag = wrap_matches fn tx r' lastIndex frag"
        using ex False by (subst wrap_matches.simps) simp
      then show ?thesis
        using "1.IH"(1) [OF ex refl refl False] b False by (simp add: tk mn rest)
    next
      case True
      let ?frag = "(if lastIndex < index then frag @ [Text (slice tx lastIndex index)] else frag)
                 @ [button num]"
      have "wrap_matches fn tx r lastIndex frag = wrap_matches fn tx r' (index + (length num + 2)) ?frag"
        using ex True by (subst wrap_matches.simps) simp
      then show ?thesis
        using "1.IH"(2) [OF ex refl refl] b True by (simp add: tk mn rest)
    qed
  qed
qed

lemma wrap_text_pieces:
  "wrap_text fn s = (if defined_citations fn s = [] then [Text s] else pieces fn [] (tokens s))"
proof -
  obtain li frag where w: "wrap_matches fn s 0 0 [] = (li, frag)"
    by (cases "wrap_matches fn s 0 0 []")
  have z: "li = 0 \<longleftrightarrow> defined_citations fn s = []"
    using wrap_matches_fst [of 0 s fn 0 "[]"] w by (simp add: defined_citations_def citations_def)
  have "finish s (li, frag) = pieces fn [] (tokens s)"
    using wrap_matches_pieces [of 0 0 s fn "[]"] w by (simp add: slice_def)
  then have f: "(if li < length s then frag @ [Text (slice s li (length s))] else frag) =
      pieces fn [] (tokens s)"
    by (simp add: finish_def split: if_splits)
  show ?thesis
  proof (cases "li = 0")
    case True
    then show ?thesis using z w by (simp add: wrap_text_def)
  next
    case False
    then have "wrap_text fn s = (if li < length s then frag @ [Text (slice s li (length s))] else frag)"
      using w by (simp add: wrap_text_def)
    then show ?thesis using False z f by simp
  qed
qed

lemma textContent_pieces:
  "concat (map textContent (pieces fn pending ts)) = pending @ concat (map token_text ts)"
  by (induction fn pending ts rule: pieces.induct) (simp_all add: text_node_def button_def)

lemma textContent_wrap_text: "concat (map textContent (wrap_text fn s)) = s"
  by (simp add: wrap_text_pieces textContent_pieces concat_token_text_tokens)

lemma elements_pieces:
  "filter is_element (pieces fn pending ts) = map button (filter (has fn) (marker_numbers ts))"
  by (induction fn pending ts rule: pieces.induct) (simp_all add: text_node_def button_def)

lemma elements_wrap_text:
  "filter is_element (wrap_text fn s) = map button (defined_citations fn s)"
  by (simp add: wrap_text_pieces elements_pieces defined_citations_def citations_def)

lemma tokens_suffix:
  "tokens s = ts1 @ ts2 \<Longrightarrow> tokens (concat (map token_text ts2)) = ts2"
proof (induction ts1 arbitrary: s)
  case Nil
  then show ?case using concat_token_text_tokens [of s] by simp
next
  case (Cons t ts1)
  then obtain c s' where s: "s = c # s'" by (cases s) auto
  show ?case
  proof (cases "match_marker (c # s')")
    case None
    with Cons.prems s have "tokens s' = ts1 @ ts2" by simp
    then show ?thesis by (rule Cons.IH)
  next
    case (Some m)
    obtain num rest where m: "m = (num, rest)" by (cases m)
    with Some Cons.prems s have "tokens rest = ts1 @ ts2" by simp
    then show ?thesis by (rule Cons.IH)
  qed
qed

lemma tokens_prefix:
  "tokens s = ts1 @ ts2 \<Longrightarrow> tokens (concat (map token_text ts1)) = ts1"
proof (induction ts1 arbitrary: s)
  case Nil
  then show ?case by simp
next
  case (Cons t ts1)
  then obtain c s' where s: "s = c # s'" by (cases s) auto
  show ?case
  proof (cases "match_marker (c # s')")
    case None
    with Cons.prems s have t: "t = Char c" and tk: "tokens s' = ts1 @ ts2" by simp_all
    from Cons.IH [OF tk] have ih: "tokens (concat (map token_text ts1)) = ts1" .
    have "s' = concat (map token_text ts1) @ concat (map token_text ts2)"
      using concat_token_text_tokens [of s'] tk by simp
    with None have "match_marker ((c # concat (map token_text ts1)) @ concat (map token_text ts2)) = None"
      by simp
    then have "match_marker (c # concat (map token_text ts1)) = None"
      using match_marker_append [of "c # concat (map token_text ts1)"]
      by (cases "match_marker (c # concat (map token_text ts1))") auto
    then show ?thesis using t ih by simp
  next
    case (Some m)
    obtain num rest where m: "m = (num, rest)" by (cases m)
    with Some Cons.prems s have t: "t = Marker num" and tk: "tokens rest = ts1 @ ts2" by simp_all
    from Cons.IH [OF tk] have ih: "tokens (concat (map token_text ts1)) = ts1" .
    from match_marker_SomeD [OF Some [unfolded m]] have num: "num \<noteq> []" "\<forall>c\<in>set num. is_digit c"
      by simp_all
    have "match_marker (CHR ''['' # num @ CHR '']'' # concat (map token_text ts1))
        = Some (num, concat (map token_text ts1))"
      using num by (rule match_marker_intro)
    then show ?thesis using t ih by simp
  qed
qed

lemma tokens_middle:
  assumes "tokens s = ts0 @ tsp @ ts"
  shows "tokens (concat (map token_text tsp)) = tsp"
proof -
  from tokens_suffix [OF assms] have "tokens (concat (map token_text (tsp @ ts))) = tsp @ ts" .
  then show ?thesis by (rule tokens_prefix)
qed

lemma marker_numbers_append:
  "marker_numbers (a @ b) = marker_numbers a @ marker_numbers b"
  by (induction a rule: marker_numbers.induct) simp_all

lemma pieces_settled:
  assumes "tokens s0 = ts0 @ tsp @ ts" "filter (has fn) (marker_numbers tsp) = []"
  shows "\<forall>x\<in>set (pieces fn (concat (map token_text tsp)) ts). settled fn x"
  using assms
proof (induction ts arbitrary: ts0 tsp)
  case Nil
  have "tokens (concat (map token_text tsp)) = tsp"
    using Nil.prems(1) by (rule tokens_middle)
  then have "defined_citations fn (concat (map token_text tsp)) = []"
    using Nil.prems(2) by (simp add: defined_citations_def citations_def)
  then show ?case by (simp add: text_node_def settled_def)
next
  case (Cons t ts)
  have mid: "tokens (concat (map token_text tsp)) = tsp"
    using Cons.prems(1) by (rule tokens_middle)
  then have inert: "defined_citations fn (concat (map token_text tsp)) = []"
    using Cons.prems(2) by (simp add: defined_citations_def citations_def)
  show ?case
  proof (cases t)
    case (Char c)
    have "tokens s0 = ts0 @ (tsp @ [Char c]) @ ts"
      using Cons.prems(1) Char by simp
    moreover have "filter (has fn) (marker_numbers (tsp @ [Char c])) = []"
      using Cons.prems(2) by (simp add: marker_numbers_append)
    ultimately have "\<forall>x\<in>set (pieces fn (concat (map token_text (tsp @ [Char c]))) ts). settled fn x"
      by (rule Cons.IH)
    then show ?thesis using Char by simp
  next
    case (Marker n)
    show ?thesis
    proof (cases "has fn n")
      case False
      have "tokens s0 = ts0 @ (tsp @ [Marker n]) @ ts"
        using Cons.prems(1) Marker by simp
      moreover have "filter (has fn) (marker_numbers (tsp @ [Marker n])) = []"
        using Cons.prems(2) False by (simp add: marker_numbers_append)
      ultimately have "\<forall>x\<in>set (pieces fn (concat (map token_text (tsp @ [Marker n]))) ts). settled fn x"
        by (rule Cons.IH)
      then show ?thesis using Marker False by simp
    next
      case True
      have "tokens s0 = (ts0 @ tsp @ [Marker n]) @ [] @ ts"
        using Cons.prems(1) Marker by simp
      moreover have "filter (has fn) (marker_numbers []) = []" by simp
      ultimately have "\<forall>x\<in>set (pieces fn (concat (map token_text [])) ts). settled fn x"
        by (rule Cons.IH)
      then show ?thesis
        using Marker True inert by (auto simp add: text_node_def settled_def)
    qed
  qed
qed

lemma wrap_text_settled: "\<forall>x\<in>set (wrap_text fn s). settled fn x"
proof (cases "defined_citations fn s = []")
  case True
  then show ?thesis by (simp add: wrap_text_pieces settled_def)
next
  case False
  have "tokens s = [] @ [] @ tokens s" by simp
  moreover have "filter (has fn) (marker_numbers []) = []" by simp
  ultimately have "\<forall>x\<in>set (pieces fn (concat (map token_text [])) (tokens s)). settled fn x"
    by (rule pieces_settled)
  then show ?thesis using False by (simp add: wrap_text_pieces)
qed


section \<open>Footnote engine: the plain-text pass\<close>

lemma wrap_plain_button: "wrap_plain fn rejected (button n) = [button n]"
  by (simp add: button_def has_data_fn_def getAttribute_def)

lemma not_test_no_citations: "\<not> test s \<Longrightarrow> defined_citations fn s = []"
proof -
  assume "\<not> test s"
  then have "find_marker s 0 = None"
    by (cases "find_marker s 0") (simp_all add: test_def exec_def)
  then have "tokens s = map Char s" by (rule find_marker_None_tokens)
  moreover have "marker_numbers (map Char x) = []" for x
    by (induction x) simp_all
  ultimately show ?thesis by (simp add: defined_citations_def citations_def)
qed

lemma wrap_plain_Text:
  "wrap_plain fn rejected (Text s) =
     (if rejected \<or> defined_citations fn s = [] then [Text s] else pieces fn [] (tokens s))"
  using not_test_no_citations [of s fn] by (auto simp add: wrap_text_pieces)

lemma wrap_plain_settled: "settled fn x \<Longrightarrow> wrap_plain fn rejected x = [x]"
  unfolding settled_def using wrap_plain_button wrap_plain_Text by auto

lemma concat_map_singletons: "(\<forall>x\<in>set xs. f x = [x]) \<Longrightarrow> concat (map f xs) = xs"
  by (induction xs) simp_all

lemma concat_map_concat:
  "concat (map f (concat xss)) = concat (map (\<lambda>xs. concat (map f xs)) xss)"
  by (induction xss) simp_all

lemma wrap_plain_idem:
  "concat (map (wrap_plain fn rejected) (wrap_plain fn rejected n)) = wrap_plain fn rejected n"
proof (induction fn rejected n rule: wrap_plain.induct)
  case (1 fn rejected s)
  show ?case
  proof (cases "rejected \<or> \<not> test s")
    case True
    then show ?thesis by auto
  next
    case False
    then have "wrap_plain fn rejected (Text s) = wrap_text fn s" by simp
    moreover have "\<forall>x\<in>set (wrap_text fn s). wrap_plain fn rejected x = [x]"
      using wrap_text_settled wrap_plain_settled by blast
    ultimately show ?thesis by (simp add: concat_map_singletons)
  qed
next
  case (2 fn rejected tag attrs cs)
  let ?r = "rejected \<or> is_notes_div tag attrs \<or> has_data_fn attrs"
  have "concat (map (wrap_plain fn ?r) (concat (map (wrap_plain fn ?r) cs))) =
      concat (map (\<lambda>c. concat (map (wrap_plain fn ?r) (wrap_plain fn ?r c))) cs)"
    by (simp add: concat_map_concat comp_def)
  also have "\<dots> = concat (map (wrap_plain fn ?r) cs)"
    using 2 by (intro arg_cong [where f = concat] map_cong) auto
  finally show ?case by simp
qed

lemma wrapPlainTextNotes_idem:
  "wrapPlainTextNotes fn (wrapPlainTextNotes fn prose) = wrapPlainTextNotes fn prose"
proof (cases prose)
  case (Text s)
  then show ?thesis by simp
next
  case (Element tag attrs cs)
  let ?r = "is_notes_div tag attrs \<or> has_data_fn attrs"
  have "concat (map (wrap_plain fn ?r) (concat (map (wrap_plain fn ?r) cs))) =
      concat (map (\<lambda>c. concat (map (wrap_plain fn ?r) (wrap_plain fn ?r c))) cs)"
    by (simp add: concat_map_concat comp_def)
  also have "\<dots> = concat (map (wrap_plain fn ?r) cs)"
    by (simp add: wrap_plain_idem)
  finally show ?thesis using Element by simp
qed

lemma textContent_wrap_plain:
  "concat (map textContent (wrap_plain fn rejected n)) = textContent n"
proof (induction fn rejected n rule: wrap_plain.induct)
  case (1 fn rejected s)
  then show ?case by (simp add: textContent_wrap_text)
next
  case (2 fn rejected tag attrs cs)
  let ?r = "rejected \<or> is_notes_div tag attrs \<or> has_data_fn attrs"
  have "concat (map textContent (concat (map (wrap_plain fn ?r) cs))) =
      concat (map (\<lambda>c. concat (map textContent (wrap_plain fn ?r c))) cs)"
    by (simp add: concat_map_concat comp_def)
  also have "\<dots> = concat (map textContent cs)"
    using 2 by (intro arg_cong [where f = concat] map_cong) auto
  finally show ?case by simp
qed

lemma textContent_wrapPlainTextNotes:
  "textContent (wrapPlainTextNotes fn prose) = textContent prose"
proof (cases prose)
  case (Text s)
  then show ?thesis by simp
next
  case (Element tag attrs cs)
  let ?r = "is_notes_div tag attrs \<or> has_data_fn attrs"
  have "concat (map textContent (concat (map (wrap_plain fn ?r) cs))) =
      concat (map (\<lambda>c. concat (map textContent (wrap_plain fn ?r c))) cs)"
    by (simp add: concat_map_concat comp_def)
  also have "\<dots> = concat (map textContent cs)"
    by (simp add: textContent_wrap_plain)
  finally show ?thesis using Element by simp
qed

lemma controls_button: "controls (button n) = [control_of n]"
  by (simp add: button_def control_of_def getAttribute_def)

lemma controls_pieces:
  "concat (map controls (pieces fn pending ts)) = map control_of (filter (has fn) (marker_numbers ts))"
  by (induction fn pending ts rule: pieces.induct) (simp_all add: text_node_def controls_button)

lemma controls_wrap_plain_Text:
  "concat (map controls (wrap_plain fn rejected (Text s))) =
     (if rejected then [] else map control_of (defined_citations fn s))"
  unfolding wrap_plain_Text
  by (simp add: controls_pieces defined_citations_def citations_def)

lemma filter_concat_map:
  "filter P (concat (map f xs)) = concat (map (\<lambda>x. filter P (f x)) xs)"
  by (induction xs) simp_all

lemma controls_wrap_plain_undefined:
  "filter (\<lambda>c. \<not> has fn (fst c)) (concat (map controls (wrap_plain fn rejected n))) =
   filter (\<lambda>c. \<not> has fn (fst c)) (controls n)"
proof (induction fn rejected n rule: wrap_plain.induct)
  case (1 fn rejected s)
  have "filter (\<lambda>c. \<not> has fn (fst c)) (map control_of (defined_citations fn s)) = []"
    by (simp add: filter_empty_conv defined_citations_def control_of_def)
  then show ?case
    unfolding controls_wrap_plain_Text by simp
next
  case (2 fn rejected tag attrs cs)
  let ?r = "rejected \<or> is_notes_div tag attrs \<or> has_data_fn attrs"
  let ?P = "\<lambda>c. \<not> has fn (fst c)"
  have "filter ?P (concat (map controls (concat (map (wrap_plain fn ?r) cs)))) =
      concat (map (\<lambda>c. filter ?P (concat (map controls (wrap_plain fn ?r c)))) cs)"
    by (simp add: concat_map_concat filter_concat_map comp_def)
  also have "\<dots> = concat (map (\<lambda>c. filter ?P (controls c)) cs)"
    using 2 by (intro arg_cong [where f = concat] map_cong) auto
  also have "\<dots> = filter ?P (concat (map controls cs))"
    by (simp add: filter_concat_map)
  finally show ?case by simp
qed

lemma controls_wrapPlainTextNotes_undefined:
  "filter (\<lambda>c. \<not> has fn (fst c)) (controls (wrapPlainTextNotes fn prose)) =
   filter (\<lambda>c. \<not> has fn (fst c)) (controls prose)"
proof (cases prose)
  case (Text s)
  then show ?thesis by simp
next
  case (Element tag attrs cs)
  let ?r = "is_notes_div tag attrs \<or> has_data_fn attrs"
  let ?P = "\<lambda>c. \<not> has fn (fst c)"
  have "filter ?P (concat (map controls (concat (map (wrap_plain fn ?r) cs)))) =
      concat (map (\<lambda>c. filter ?P (concat (map controls (wrap_plain fn ?r c)))) cs)"
    by (simp add: concat_map_concat filter_concat_map comp_def)
  also have "\<dots> = concat (map (\<lambda>c. filter ?P (controls c)) cs)"
    by (simp only: controls_wrap_plain_undefined)
  also have "\<dots> = filter ?P (concat (map controls cs))"
    by (simp add: filter_concat_map)
  finally show ?thesis using Element by simp
qed

text \<open>
  C5. A text node whose citations all lack a definition is left as it is; in general the
  replacement of a text node has the same text, and the controls in it are exactly those
  of the defined citations of the text, in order, so a number without a definition never
  gets a control. On the whole tree the pass keeps the text content, adds no control with
  an undefined number, and running it a second time changes nothing.
\<close>

theorem plain_pass_skips_undefined_and_is_idempotent:
  "(defined_citations fn s = [] \<longrightarrow> wrap_plain fn rejected (Text s) = [Text s]) \<and>
   concat (map textContent (wrap_plain fn rejected (Text s))) = s \<and>
   filter is_element (wrap_plain fn False (Text s)) = map button (defined_citations fn s) \<and>
   textContent (wrapPlainTextNotes fn prose) = textContent prose \<and>
   filter (\<lambda>c. \<not> has fn (fst c)) (controls (wrapPlainTextNotes fn prose)) =
     filter (\<lambda>c. \<not> has fn (fst c)) (controls prose) \<and>
   wrapPlainTextNotes fn (wrapPlainTextNotes fn prose) = wrapPlainTextNotes fn prose"
proof -
  have a: "defined_citations fn s = [] \<longrightarrow> wrap_plain fn rejected (Text s) = [Text s]"
    unfolding wrap_plain_Text by simp
  have b: "concat (map textContent (wrap_plain fn rejected (Text s))) = s"
    using textContent_wrap_plain [of fn rejected "Text s"] by simp
  have c: "filter is_element (wrap_plain fn False (Text s)) = map button (defined_citations fn s)"
    unfolding wrap_plain_Text
    by (simp add: elements_pieces defined_citations_def citations_def)
  show ?thesis
    by (intro conjI a b c textContent_wrapPlainTextNotes controls_wrapPlainTextNotes_undefined
        wrapPlainTextNotes_idem)
qed

lemma sample_tokens: "defined_citations [(''1'', ''McCarthy, 1960.'')] ''see [2]'' = []"
  by (simp add: defined_citations_def citations_def match_marker_def is_digit_def has_def)

theorem plain_pass_skips_undefined_and_is_idempotent_witness:
  "defined_citations [(''1'', ''McCarthy, 1960.'')] ''see [2]'' = [] \<and>
   wrap_plain [(''1'', ''McCarthy, 1960.'')] False (Text ''see [2]'') = [Text ''see [2]''] \<and>
   wrapPlainTextNotes [(''1'', ''McCarthy, 1960.'')]
     (wrapPlainTextNotes [(''1'', ''McCarthy, 1960.'')] sample_prose) =
   wrapPlainTextNotes [(''1'', ''McCarthy, 1960.'')] sample_prose"
  using plain_pass_skips_undefined_and_is_idempotent
    [of "[(''1'', ''McCarthy, 1960.'')]" "''see [2]''" False sample_prose]
    sample_tokens
  by simp


section \<open>Footnote engine: definition extraction\<close>

lemma js_whitespace_nonempty: "w \<in> set js_whitespace \<Longrightarrow> w \<noteq> []"
  by (auto simp add: js_whitespace_def)

lemma strip_leading_none:
  "find (\<lambda>w. w \<noteq> [] \<and> prefix w (strip_leading ws s)) ws = None"
proof (induction ws s rule: strip_leading.induct)
  case (1 ws s)
  show ?case
  proof (cases "find (\<lambda>w. w \<noteq> [] \<and> prefix w s) ws")
    case None
    then have "strip_leading ws s = s" by (subst strip_leading.simps) simp
    with None show ?thesis by simp
  next
    case (Some w)
    then have "strip_leading ws s = strip_leading ws (drop (length w) s)"
      by (subst strip_leading.simps) simp
    with 1 [OF Some] show ?thesis by simp
  qed
qed

lemma strip_leading_suffix: "suffix (strip_leading ws s) s"
proof (induction ws s rule: strip_leading.induct)
  case (1 ws s)
  show ?case
  proof (cases "find (\<lambda>w. w \<noteq> [] \<and> prefix w s) ws")
    case None
    then have "strip_leading ws s = s" by (subst strip_leading.simps) simp
    then show ?thesis by simp
  next
    case (Some w)
    then have "strip_leading ws s = strip_leading ws (drop (length w) s)"
      by (subst strip_leading.simps) simp
    with 1 [OF Some] show ?thesis
      using suffix_drop suffix_order.trans by metis
  qed
qed

lemma trimStart_no_leading: "\<not> starts_with_whitespace (trimStart s)"
proof -
  have "find (\<lambda>w. w \<noteq> [] \<and> prefix w (trimStart s)) js_whitespace = None"
    unfolding trimStart_def by (rule strip_leading_none)
  then show ?thesis
    using js_whitespace_nonempty
    by (auto simp add: starts_with_whitespace_def find_None_iff list_ex_iff)
qed

lemma trimEnd_no_trailing: "\<not> ends_with_whitespace (trimEnd s)"
proof -
  have "find (\<lambda>w. w \<noteq> [] \<and> prefix w (rev (trimEnd s))) (map rev js_whitespace) = None"
    unfolding trimEnd_def rev_rev_ident by (rule strip_leading_none)
  then have "\<forall>w\<in>set js_whitespace. \<not> prefix (rev w) (rev (trimEnd s))"
    using js_whitespace_nonempty by (auto simp add: find_None_iff)
  then show ?thesis
    by (auto simp add: ends_with_whitespace_def list_ex_iff suffix_to_prefix)
qed

lemma trimmed_trim: "trimmed (trim s)"
proof -
  have "\<not> starts_with_whitespace (trim s)"
    unfolding trim_def by (rule trimStart_no_leading)
  moreover have "\<not> ends_with_whitespace (trim s)"
  proof
    assume "ends_with_whitespace (trim s)"
    then obtain w where w: "w \<in> set js_whitespace" "suffix w (trimStart (trimEnd s))"
      by (auto simp add: ends_with_whitespace_def list_ex_iff trim_def)
    have "suffix (trimStart (trimEnd s)) (trimEnd s)"
      unfolding trimStart_def by (rule strip_leading_suffix)
    with w(2) have "suffix w (trimEnd s)"
      using suffix_order.trans by blast
    with w(1) have "ends_with_whitespace (trimEnd s)"
      by (auto simp add: ends_with_whitespace_def list_ex_iff)
    with trimEnd_no_trailing show False by blast
  qed
  ultimately show ?thesis by (simp add: trimmed_def)
qed

lemma split_from_bodies:
  "split_from cur s = (cur @ lead (tokens s)) # flat (bodies (tokens s))"
proof (induction cur s rule: split_from.induct)
  case (1 cur)
  show ?case by (simp add: lead_def flat_def)
next
  case (2 cur c s)
  show ?case
  proof (cases "match_marker (c # s)")
    case None
    with 2(1) [OF None] show ?thesis by (simp add: lead_def flat_def)
  next
    case (Some m)
    obtain num rest where m: "m = (num, rest)" by (cases m)
    from 2(2) [OF Some m [symmetric]] Some m show ?thesis
      by (simp add: lead_def flat_def)
  qed
qed

lemma set_definitions_flat:
  "set_definitions h (pre @ flat bs) (length pre) m = foldl map_set m (entries_of h bs)"
proof (induction bs arbitrary: pre m)
  case Nil
  show ?case by (subst set_definitions.simps) (simp add: flat_def entries_of_def)
next
  case (Cons b bs)
  obtain n raw where b: "b = (n, raw)" by (cases b)
  let ?parts = "pre @ flat (b # bs)"
  have p: "?parts = (pre @ [n, raw]) @ flat bs"
    by (simp add: flat_def b)
  have i: "length pre < length ?parts" "length pre + 1 < length ?parts"
    "?parts ! length pre = n" "?parts ! (length pre + 1) = raw"
    by (simp_all add: flat_def b nth_append)
  let ?m = "if trim (h raw) \<noteq> [] then AList.update n (trim (h raw)) m else m"
  have "set_definitions h ?parts (length pre) m = set_definitions h ?parts (length pre + 2) ?m"
    using i by (subst set_definitions.simps) (simp add: Let_def)
  also have "\<dots> = set_definitions h ((pre @ [n, raw]) @ flat bs) (length (pre @ [n, raw])) ?m"
    unfolding p by simp
  also have "\<dots> = foldl map_set ?m (entries_of h bs)"
    by (rule Cons.IH)
  also have "\<dots> = foldl map_set m (entries_of h (b # bs))"
    by (simp add: entries_of_def b map_set_def)
  finally show ?case .
qed

lemma set_definitions_split:
  "set_definitions h (split_markers html) 1 m = foldl map_set m (definition_entries h html)"
proof -
  have "set_definitions h ([lead (tokens html)] @ flat (bodies (tokens html))) (length [lead (tokens html)]) m
      = foldl map_set m (entries_of h (bodies (tokens html)))"
    by (rule set_definitions_flat)
  then show ?thesis
    by (simp add: split_markers_def split_from_bodies entries_of_def definition_entries_def
        marker_bodies_def)
qed

lemma parse_section_entries:
  "parse_section innerHTML h m b =
     (if notes_heading b then foldl map_set m (definition_entries h (innerHTML b)) else m)"
  by (simp add: parse_section_def notes_heading_def set_definitions_split del: One_nat_def
      split: option.splits)

lemma foldl_conditional:
  "foldl (\<lambda>m b. if P b then foldl g m (f b) else m) m0 xs = foldl g m0 (concat (map f (filter P xs)))"
  by (induction xs arbitrary: m0) simp_all

lemma parseFootnotes_entries:
  "parseFootnotes innerHTML h prose =
     foldl map_set [] (concat (map (\<lambda>b. definition_entries h (innerHTML b)) (notes_blocks prose)))"
proof -
  have "parse_section innerHTML h =
      (\<lambda>m b. if notes_heading b then foldl map_set m (definition_entries h (innerHTML b)) else m)"
    by (intro ext) (rule parse_section_entries)
  then show ?thesis
    by (simp add: parseFootnotes_def notes_blocks_def foldl_conditional)
qed

lemma map_of_foldl_map_set: "map_of (foldl map_set [] es) = map_of (rev es)"
proof (induction es rule: rev_induct)
  case Nil
  show ?case by simp
next
  case (snoc e es)
  then show ?case by (cases e) (simp add: map_set_def update_conv')
qed

lemma distinct_foldl_map_set:
  "distinct (map fst m) \<Longrightarrow> distinct (map fst (foldl map_set m es))"
  by (induction es arbitrary: m) (simp_all add: map_set_def distinct_update)

lemma set_update_subset: "set (AList.update k v m) \<subseteq> insert (k, v) (set m)"
  by (induction m) auto

lemma set_foldl_map_set: "set (foldl map_set m es) \<subseteq> set m \<union> set es"
proof (induction es arbitrary: m)
  case Nil
  show ?case by simp
next
  case (Cons e es)
  have "set (foldl map_set (map_set m e) es) \<subseteq> set (map_set m e) \<union> set es"
    by (rule Cons.IH)
  moreover have "set (map_set m e) \<subseteq> insert e (set m)"
    using set_update_subset [of "fst e" "snd e" m] by (simp add: map_set_def)
  ultimately show ?case by auto
qed

lemma tokens_Marker_digits:
  "Marker num \<in> set (tokens s) \<Longrightarrow> num \<noteq> [] \<and> list_all is_digit num"
proof (induction s rule: tokens.induct)
  case 1
  then show ?case by simp
next
  case (2 c s)
  show ?case
  proof (cases "match_marker (c # s)")
    case None
    with 2 show ?thesis by simp
  next
    case (Some m)
    obtain n rest where m: "m = (n, rest)" by (cases m)
    from match_marker_SomeD [OF Some [unfolded m]] have "n \<noteq> [] \<and> list_all is_digit n"
      by (simp add: list_all_iff)
    with 2(2) [OF Some m [symmetric]] 2(3) Some m show ?thesis by auto
  qed
qed

lemma bodies_Marker: "(num, raw) \<in> set (bodies ts) \<Longrightarrow> Marker num \<in> set ts"
  by (induction ts rule: bodies.induct) auto

lemma definition_entries_sound:
  assumes "(k, v) \<in> set (definition_entries h html)"
  shows "k \<noteq> [] \<and> list_all is_digit k \<and> v \<noteq> [] \<and> trimmed v \<and>
     (\<exists>raw. (k, raw) \<in> set (marker_bodies html) \<and> v = trim (h raw))"
proof -
  from assms obtain raw where r: "(k, raw) \<in> set (marker_bodies html)" "v = trim (h raw)" "v \<noteq> []"
    by (auto simp add: definition_entries_def)
  from r(1) have "Marker k \<in> set (tokens html)"
    unfolding marker_bodies_def by (rule bodies_Marker)
  then have "k \<noteq> [] \<and> list_all is_digit k" by (rule tokens_Marker_digits)
  then show ?thesis using r trimmed_trim by blast
qed

text \<open>
  C4. \<open>parseFootnotes\<close> computes the Definition Map that the specification describes: the
  entries of the notes blocks (the \<^verbatim>\<open>div.text-xs\<close> elements whose heading text starts with
  \<^verbatim>\<open>Notes\<close>) in document order, each block's content split at its markers, the segment after
  a marker being the body of its number, stripped to plain text and trimmed, empty
  definitions discarded; a later definition of a number replaces an earlier one. Every key
  of the map is a non-empty string of decimal digits, and every value is a non-empty
  trimmed string, the plain text of such a segment.
\<close>

theorem parseFootnotes_definition_map:
  "parseFootnotes innerHTML html_text prose =
     foldl map_set []
       (concat (map (\<lambda>b. definition_entries html_text (innerHTML b)) (notes_blocks prose))) \<and>
   map_of (parseFootnotes innerHTML html_text prose) =
     map_of (rev (concat (map (\<lambda>b. definition_entries html_text (innerHTML b)) (notes_blocks prose)))) \<and>
   distinct (map fst (parseFootnotes innerHTML html_text prose)) \<and>
   (\<forall>k v. (k, v) \<in> set (parseFootnotes innerHTML html_text prose) \<longrightarrow>
      k \<noteq> [] \<and> list_all is_digit k \<and> v \<noteq> [] \<and> trimmed v \<and>
      (\<exists>b raw. b \<in> set (notes_blocks prose) \<and> (k, raw) \<in> set (marker_bodies (innerHTML b)) \<and>
         v = trim (html_text raw)))"
proof -
  let ?es = "concat (map (\<lambda>b. definition_entries html_text (innerHTML b)) (notes_blocks prose))"
  have eq: "parseFootnotes innerHTML html_text prose = foldl map_set [] ?es"
    by (rule parseFootnotes_entries)
  have m: "map_of (parseFootnotes innerHTML html_text prose) = map_of (rev ?es)"
    unfolding eq by (rule map_of_foldl_map_set)
  have d: "distinct (map fst (parseFootnotes innerHTML html_text prose))"
    unfolding eq by (rule distinct_foldl_map_set) simp
  have s: "k \<noteq> [] \<and> list_all is_digit k \<and> v \<noteq> [] \<and> trimmed v \<and>
      (\<exists>b raw. b \<in> set (notes_blocks prose) \<and> (k, raw) \<in> set (marker_bodies (innerHTML b)) \<and>
         v = trim (html_text raw))"
    if "(k, v) \<in> set (parseFootnotes innerHTML html_text prose)" for k v
  proof -
    from that have "(k, v) \<in> set ?es"
      unfolding eq using set_foldl_map_set [of "[]" ?es] by auto
    then obtain b where b: "b \<in> set (notes_blocks prose)"
      "(k, v) \<in> set (definition_entries html_text (innerHTML b))"
      by auto
    from definition_entries_sound [OF b(2)] b(1) show ?thesis by blast
  qed
  from eq m d s show ?thesis by blast
qed

lemma sample_parse:
  "parseFootnotes sample_innerHTML (\<lambda>raw. raw) sample_prose = [(''1'', ''McCarthy, 1960.'')]"
  by code_simp

theorem parseFootnotes_definition_map_witness:
  "(''1'', ''McCarthy, 1960.'') \<in> set (parseFootnotes sample_innerHTML (\<lambda>raw. raw) sample_prose) \<and>
   list_all is_digit ''1'' \<and> trimmed ''McCarthy, 1960.''"
proof -
  have mem: "(''1'', ''McCarthy, 1960.'') \<in> set (parseFootnotes sample_innerHTML (\<lambda>raw. raw) sample_prose)"
    by (simp add: sample_parse)
  from parseFootnotes_definition_map [of sample_innerHTML "\<lambda>raw. raw" sample_prose,
      THEN conjunct2, THEN conjunct2, THEN conjunct2, rule_format, OF mem]
  show ?thesis using mem by simp
qed


section \<open>Footnote engine: one popover at a time\<close>

lemma dismissAll_fields:
  "activeTooltip (dismissAll s) = None" "activeSheet (dismissAll s) = None"
  "backdrop (dismissAll s) = None" "next_id (dismissAll s) = next_id s"
  "document_body (dismissAll s) =
     (case activeTooltip s of None \<Rightarrow> document_body s | Some t \<Rightarrow> remove_element t (document_body s))"
  "scheduled (dismissAll s) =
     scheduled s @ (case activeSheet s of None \<Rightarrow> [] | Some sh \<Rightarrow> [sh])
       @ (case backdrop s of None \<Rightarrow> [] | Some b \<Rightarrow> [b])"
  by (simp_all add: dismissAll_def Let_def split: option.splits)

lemma ui_inv_initial: "ui_inv ui_initial"
  by (simp add: ui_inv_def ui_initial_def)

lemma ui_invI:
  assumes "distinct (map el_id (document_body s))"
    and "\<And>e. e \<in> set (document_body s) \<Longrightarrow> el_id e < next_id s"
    and "\<And>i. i \<in> set (scheduled s) \<Longrightarrow>
          i < next_id s \<and> activeTooltip s \<noteq> Some i \<and> activeSheet s \<noteq> Some i \<and> backdrop s \<noteq> Some i"
    and "activeTooltip s = None \<or> (activeSheet s = None \<and> backdrop s = None)"
    and "activeSheet s = None \<longleftrightarrow> backdrop s = None"
    and "\<And>t. activeTooltip s = Some t \<Longrightarrow> \<exists>e\<in>set (document_body s). el_id e = t \<and> kind e = Tooltip"
    and "\<And>t. activeSheet s = Some t \<Longrightarrow> \<exists>e\<in>set (document_body s). el_id e = t \<and> kind e = Sheet"
    and "\<And>t. backdrop s = Some t \<Longrightarrow> \<exists>e\<in>set (document_body s). el_id e = t \<and> kind e = Backdrop"
    and "\<And>e. e \<in> set (document_body s) \<Longrightarrow> kind e = Tooltip \<Longrightarrow> activeTooltip s = Some (el_id e)"
    and "\<And>e. e \<in> set (document_body s) \<Longrightarrow> kind e \<noteq> Tooltip \<Longrightarrow>
          is_active s e \<or> el_id e \<in> set (scheduled s)"
  shows "ui_inv s"
  unfolding ui_inv_def list_all_iff list_ex_iff
  using assms by (simp split: option.splits)

lemma ui_invD:
  assumes "ui_inv s"
  shows "distinct (map el_id (document_body s))"
    and "\<And>e. e \<in> set (document_body s) \<Longrightarrow> el_id e < next_id s"
    and "\<And>i. i \<in> set (scheduled s) \<Longrightarrow>
          i < next_id s \<and> activeTooltip s \<noteq> Some i \<and> activeSheet s \<noteq> Some i \<and> backdrop s \<noteq> Some i"
    and "activeTooltip s = None \<or> (activeSheet s = None \<and> backdrop s = None)"
    and "activeSheet s = None \<longleftrightarrow> backdrop s = None"
    and "\<And>t. activeTooltip s = Some t \<Longrightarrow> \<exists>e\<in>set (document_body s). el_id e = t \<and> kind e = Tooltip"
    and "\<And>t. activeSheet s = Some t \<Longrightarrow> \<exists>e\<in>set (document_body s). el_id e = t \<and> kind e = Sheet"
    and "\<And>t. backdrop s = Some t \<Longrightarrow> \<exists>e\<in>set (document_body s). el_id e = t \<and> kind e = Backdrop"
    and "\<And>e. e \<in> set (document_body s) \<Longrightarrow> kind e = Tooltip \<Longrightarrow> activeTooltip s = Some (el_id e)"
    and "\<And>e. e \<in> set (document_body s) \<Longrightarrow> kind e \<noteq> Tooltip \<Longrightarrow>
          is_active s e \<or> el_id e \<in> set (scheduled s)"
  using assms unfolding ui_inv_def list_all_iff list_ex_iff
  by (simp_all split: option.splits)

lemma set_remove_element: "set (remove_element i es) = {e \<in> set es. el_id e \<noteq> i}"
  by (auto simp add: remove_element_def)

lemma distinct_remove_element:
  "distinct (map el_id es) \<Longrightarrow> distinct (map el_id (remove_element i es))"
  by (simp add: remove_element_def distinct_map_filter)

lemma ui_inv_dismissAll:
  assumes "ui_inv s"
  shows "ui_inv (dismissAll s)"
proof (rule ui_invI)
  note D = ui_invD [OF assms]
  let ?d = "dismissAll s"
  have body: "set (document_body ?d) \<subseteq> set (document_body s)"
    by (auto simp add: dismissAll_fields set_remove_element split: option.splits)
  show "distinct (map el_id (document_body ?d))"
    using D(1) by (simp add: dismissAll_fields distinct_remove_element split: option.splits)
  show "el_id e < next_id ?d" if "e \<in> set (document_body ?d)" for e
    using that body D(2) by (auto simp add: dismissAll_fields)
  show "i < next_id ?d \<and> activeTooltip ?d \<noteq> Some i \<and> activeSheet ?d \<noteq> Some i \<and> backdrop ?d \<noteq> Some i"
    if "i \<in> set (scheduled ?d)" for i
  proof -
    from that consider "i \<in> set (scheduled s)" | "activeSheet s = Some i" | "backdrop s = Some i"
      by (auto simp add: dismissAll_fields split: option.splits)
    then have "i < next_id s"
    proof cases
      case 1 then show ?thesis using D(3) by blast
    next
      case 2 then show ?thesis using D(7) D(2) by blast
    next
      case 3 then show ?thesis using D(8) D(2) by blast
    qed
    then show ?thesis by (simp add: dismissAll_fields)
  qed
  show "activeTooltip ?d = None \<or> (activeSheet ?d = None \<and> backdrop ?d = None)"
    by (simp add: dismissAll_fields)
  show "activeSheet ?d = None \<longleftrightarrow> backdrop ?d = None"
    by (simp add: dismissAll_fields)
  show "\<exists>e\<in>set (document_body ?d). el_id e = t \<and> kind e = Tooltip" if "activeTooltip ?d = Some t" for t
    using that by (simp add: dismissAll_fields)
  show "\<exists>e\<in>set (document_body ?d). el_id e = t \<and> kind e = Sheet" if "activeSheet ?d = Some t" for t
    using that by (simp add: dismissAll_fields)
  show "\<exists>e\<in>set (document_body ?d). el_id e = t \<and> kind e = Backdrop" if "backdrop ?d = Some t" for t
    using that by (simp add: dismissAll_fields)
  show "activeTooltip ?d = Some (el_id e)" if "e \<in> set (document_body ?d)" "kind e = Tooltip" for e
  proof -
    from that(1) have m: "e \<in> set (document_body s)" using body by blast
    from D(9) [OF m that(2)] have "activeTooltip s = Some (el_id e)" .
    with that(1) show ?thesis
      by (simp add: dismissAll_fields set_remove_element)
  qed
  show "is_active ?d e \<or> el_id e \<in> set (scheduled ?d)"
    if "e \<in> set (document_body ?d)" "kind e \<noteq> Tooltip" for e
  proof -
    from that(1) have m: "e \<in> set (document_body s)" using body by blast
    from D(10) [OF m that(2)] have "is_active s e \<or> el_id e \<in> set (scheduled s)" .
    moreover have "activeTooltip s \<noteq> Some (el_id e)"
    proof
      assume a: "activeTooltip s = Some (el_id e)"
      from D(6) [OF a] obtain e' where e': "e' \<in> set (document_body s)" "el_id e' = el_id e" "kind e' = Tooltip"
        by blast
      from D(1) e'(1,2) m have "e' = e"
        by (meson distinct_map inj_onD)
      with e'(3) that(2) show False by simp
    qed
    ultimately show ?thesis
      by (auto simp add: is_active_def dismissAll_fields split: option.splits)
  qed
qed

lemma showTooltip_eq:
  "showTooltip tx s = (dismissAll s)\<lparr>document_body := document_body (dismissAll s) @
               [\<lparr>el_id = next_id s, kind = Tooltip, label = [], content = tx\<rparr>],
            next_id := Suc (next_id s), activeTooltip := Some (next_id s)\<rparr>"
  by (simp add: showTooltip_def Let_def dismissAll_fields)

lemma showBottomSheet_eq:
  "showBottomSheet num tx s = (dismissAll s)\<lparr>document_body := document_body (dismissAll s) @
               [\<lparr>el_id = next_id s, kind = Backdrop, label = [], content = []\<rparr>,
                \<lparr>el_id = Suc (next_id s), kind = Sheet, label = ''Note '' @ num, content = tx\<rparr>],
            next_id := Suc (Suc (next_id s)), backdrop := Some (next_id s),
            activeSheet := Some (Suc (next_id s))\<rparr>"
  by (simp add: showBottomSheet_def Let_def dismissAll_fields)

lemma ui_inv_showTooltip:
  assumes "ui_inv s"
  shows "ui_inv (showTooltip tx s)"
proof -
  let ?d = "dismissAll s"
  note D = ui_invD [OF ui_inv_dismissAll [OF assms]]
  have f: "activeTooltip ?d = None" "activeSheet ?d = None" "backdrop ?d = None"
    "next_id ?d = next_id s"
    by (simp_all add: dismissAll_fields)
  have fresh: "el_id e < next_id s" if "e \<in> set (document_body ?d)" for e
    using D(2) [OF that] f(4) by simp
  show ?thesis
    unfolding showTooltip_eq
  proof (rule ui_invI)
    let ?n = "\<lparr>el_id = next_id s, kind = Tooltip, label = [], content = tx\<rparr>"
    let ?s = "?d\<lparr>document_body := document_body ?d @ [?n],
            next_id := Suc (next_id s), activeTooltip := Some (next_id s)\<rparr>"
    have "next_id s \<notin> el_id ` set (document_body ?d)"
      using fresh by (auto simp add: image_iff) (metis less_irrefl)
    then show "distinct (map el_id (document_body ?s))"
      using D(1) by simp
    show "el_id e < next_id ?s" if "e \<in> set (document_body ?s)" for e
      using that D(2) f(4) by (auto simp add: less_Suc_eq)
    show "i < next_id ?s \<and> activeTooltip ?s \<noteq> Some i \<and> activeSheet ?s \<noteq> Some i \<and> backdrop ?s \<noteq> Some i"
      if "i \<in> set (scheduled ?s)" for i
      using that D(3) [of i] f by auto
    show "activeTooltip ?s = None \<or> (activeSheet ?s = None \<and> backdrop ?s = None)"
      using f by simp
    show "activeSheet ?s = None \<longleftrightarrow> backdrop ?s = None"
      using f by simp
    show "\<exists>e\<in>set (document_body ?s). el_id e = t \<and> kind e = Tooltip" if "activeTooltip ?s = Some t" for t
      using that by auto
    show "\<exists>e\<in>set (document_body ?s). el_id e = t \<and> kind e = Sheet" if "activeSheet ?s = Some t" for t
      using that f by simp
    show "\<exists>e\<in>set (document_body ?s). el_id e = t \<and> kind e = Backdrop" if "backdrop ?s = Some t" for t
      using that f by simp
    show "activeTooltip ?s = Some (el_id e)" if "e \<in> set (document_body ?s)" "kind e = Tooltip" for e
      using that D(9) [of e] f by auto
    show "is_active ?s e \<or> el_id e \<in> set (scheduled ?s)"
      if "e \<in> set (document_body ?s)" "kind e \<noteq> Tooltip" for e
      using that D(10) [of e] f by (auto simp add: is_active_def)
  qed
qed

lemma ui_inv_showBottomSheet:
  assumes "ui_inv s"
  shows "ui_inv (showBottomSheet num tx s)"
proof -
  let ?d = "dismissAll s"
  note D = ui_invD [OF ui_inv_dismissAll [OF assms]]
  have f: "activeTooltip ?d = None" "activeSheet ?d = None" "backdrop ?d = None"
    "next_id ?d = next_id s"
    by (simp_all add: dismissAll_fields)
  have fresh: "el_id e < next_id s" if "e \<in> set (document_body ?d)" for e
    using D(2) [OF that] f(4) by simp
  show ?thesis
    unfolding showBottomSheet_eq
  proof (rule ui_invI)
    let ?b = "\<lparr>el_id = next_id s, kind = Backdrop, label = [], content = []\<rparr>"
    let ?sh = "\<lparr>el_id = Suc (next_id s), kind = Sheet, label = ''Note '' @ num, content = tx\<rparr>"
    let ?s = "?d\<lparr>document_body := document_body ?d @ [?b, ?sh],
            next_id := Suc (Suc (next_id s)), backdrop := Some (next_id s),
            activeSheet := Some (Suc (next_id s))\<rparr>"
    have "next_id s \<notin> el_id ` set (document_body ?d)"
      "Suc (next_id s) \<notin> el_id ` set (document_body ?d)"
      using fresh by (auto simp add: image_iff) (metis less_irrefl, metis Suc_n_not_le_n less_imp_le)
    then show "distinct (map el_id (document_body ?s))"
      using D(1) by simp
    show "el_id e < next_id ?s" if "e \<in> set (document_body ?s)" for e
      using that fresh by (auto simp add: less_Suc_eq)
    show "i < next_id ?s \<and> activeTooltip ?s \<noteq> Some i \<and> activeSheet ?s \<noteq> Some i \<and> backdrop ?s \<noteq> Some i"
      if "i \<in> set (scheduled ?s)" for i
      using that D(3) [of i] f by auto
    show "activeTooltip ?s = None \<or> (activeSheet ?s = None \<and> backdrop ?s = None)"
      using f by simp
    show "activeSheet ?s = None \<longleftrightarrow> backdrop ?s = None"
      using f by simp
    show "\<exists>e\<in>set (document_body ?s). el_id e = t \<and> kind e = Tooltip" if "activeTooltip ?s = Some t" for t
      using that f by simp
    show "\<exists>e\<in>set (document_body ?s). el_id e = t \<and> kind e = Sheet" if "activeSheet ?s = Some t" for t
      using that by auto
    show "\<exists>e\<in>set (document_body ?s). el_id e = t \<and> kind e = Backdrop" if "backdrop ?s = Some t" for t
      using that by auto
    show "activeTooltip ?s = Some (el_id e)" if "e \<in> set (document_body ?s)" "kind e = Tooltip" for e
      using that D(9) [of e] f by auto
    show "is_active ?s e \<or> el_id e \<in> set (scheduled ?s)"
      if "e \<in> set (document_body ?s)" "kind e \<noteq> Tooltip" for e
      using that D(10) [of e] f by (auto simp add: is_active_def)
  qed
qed

lemma ui_inv_removal_fires:
  assumes "ui_inv s"
  shows "ui_inv (removal_fires i s)"
proof (cases "i \<in> set (scheduled s)")
  case False
  with assms show ?thesis by (simp add: removal_fires_def)
next
  case True
  note D = ui_invD [OF assms]
  from D(3) [OF True] have h: "activeTooltip s \<noteq> Some i" "activeSheet s \<noteq> Some i" "backdrop s \<noteq> Some i"
    by simp_all
  let ?s = "s\<lparr>document_body := remove_element i (document_body s),
             scheduled := removeAll i (scheduled s)\<rparr>"
  have eq: "removal_fires i s = ?s" using True by (simp add: removal_fires_def)
  show ?thesis
    unfolding eq
  proof (rule ui_invI)
    show "distinct (map el_id (document_body ?s))"
      using D(1) by (simp add: distinct_remove_element)
    show "el_id e < next_id ?s" if "e \<in> set (document_body ?s)" for e
      using that D(2) by (simp add: set_remove_element)
    show "j < next_id ?s \<and> activeTooltip ?s \<noteq> Some j \<and> activeSheet ?s \<noteq> Some j \<and> backdrop ?s \<noteq> Some j"
      if "j \<in> set (scheduled ?s)" for j
      using that D(3) [of j] by simp
    show "activeTooltip ?s = None \<or> (activeSheet ?s = None \<and> backdrop ?s = None)"
      using D(4) by simp
    show "activeSheet ?s = None \<longleftrightarrow> backdrop ?s = None"
      using D(5) by simp
    show "\<exists>e\<in>set (document_body ?s). el_id e = t \<and> kind e = Tooltip" if "activeTooltip ?s = Some t" for t
      using that D(6) [of t] h by (auto simp add: set_remove_element)
    show "\<exists>e\<in>set (document_body ?s). el_id e = t \<and> kind e = Sheet" if "activeSheet ?s = Some t" for t
      using that D(7) [of t] h by (auto simp add: set_remove_element)
    show "\<exists>e\<in>set (document_body ?s). el_id e = t \<and> kind e = Backdrop" if "backdrop ?s = Some t" for t
      using that D(8) [of t] h by (auto simp add: set_remove_element)
    show "activeTooltip ?s = Some (el_id e)" if "e \<in> set (document_body ?s)" "kind e = Tooltip" for e
      using that D(9) [of e] by (simp add: set_remove_element)
    show "is_active ?s e \<or> el_id e \<in> set (scheduled ?s)"
      if "e \<in> set (document_body ?s)" "kind e \<noteq> Tooltip" for e
      using that D(10) [of e] by (auto simp add: set_remove_element is_active_def)
  qed
qed

lemma ui_inv_activate: "ui_inv s \<Longrightarrow> ui_inv (activate fn mobile num s)"
  by (simp add: activate_def ui_inv_showTooltip ui_inv_showBottomSheet split: option.splits)

lemma ui_inv_step: "ui_inv s \<Longrightarrow> ui_inv (ui_step fn s e)"
  by (cases e) (simp_all add: ui_inv_activate ui_inv_dismissAll ui_inv_removal_fires)

lemma ui_inv_foldl: "ui_inv s \<Longrightarrow> ui_inv (foldl (ui_step fn) s es)"
  by (induction es arbitrary: s) (simp_all add: ui_inv_step)

lemma ui_inv_run: "ui_inv (ui_run fn es)"
  unfolding ui_run_def by (rule ui_inv_foldl) (rule ui_inv_initial)

lemma removal_fires_fields:
  "activeTooltip (removal_fires i s) = activeTooltip s"
  "activeSheet (removal_fires i s) = activeSheet s"
  "backdrop (removal_fires i s) = backdrop s"
  by (simp_all add: removal_fires_def)

lemma foldl_removal_fires:
  "document_body (foldl (\<lambda>s i. removal_fires i s) s xs) =
     filter (\<lambda>e. el_id e \<notin> set xs \<inter> set (scheduled s)) (document_body s) \<and>
   scheduled (foldl (\<lambda>s i. removal_fires i s) s xs) = filter (\<lambda>i. i \<notin> set xs) (scheduled s) \<and>
   activeTooltip (foldl (\<lambda>s i. removal_fires i s) s xs) = activeTooltip s \<and>
   activeSheet (foldl (\<lambda>s i. removal_fires i s) s xs) = activeSheet s \<and>
   backdrop (foldl (\<lambda>s i. removal_fires i s) s xs) = backdrop s"
proof (induction xs arbitrary: s)
  case Nil
  show ?case by simp
next
  case (Cons x xs)
  show ?case
  proof (cases "x \<in> set (scheduled s)")
    case False
    then have "removal_fires x s = s" by (simp add: removal_fires_def)
    with Cons [of s] False show ?thesis
      by (auto intro!: filter_cong)
  next
    case True
    let ?s = "removal_fires x s"
    have b: "document_body ?s = filter (\<lambda>e. el_id e \<noteq> x) (document_body s)"
      and sc: "scheduled ?s = filter (\<lambda>i. i \<noteq> x) (scheduled s)"
      using True by (simp_all add: removal_fires_def remove_element_def removeAll_filter_not_eq)
        (metis (mono_tags, lifting) filter_cong)
    from Cons [of ?s] show ?thesis
      unfolding b sc using True
      by (auto simp add: removal_fires_fields intro!: filter_cong)
  qed
qed

lemma settle_fields:
  "document_body (settle s) = filter (\<lambda>e. el_id e \<notin> set (scheduled s)) (document_body s)"
  "scheduled (settle s) = []"
  "activeTooltip (settle s) = activeTooltip s"
  "activeSheet (settle s) = activeSheet s"
  "backdrop (settle s) = backdrop s"
  using foldl_removal_fires [of s "scheduled s"] by (simp_all add: settle_def)

lemma settle_body_active:
  assumes "ui_inv s"
  shows "document_body (settle s) = filter (is_active s) (document_body s)"
proof -
  note D = ui_invD [OF assms]
  have "el_id e \<notin> set (scheduled s) \<longleftrightarrow> is_active s e" if "e \<in> set (document_body s)" for e
  proof (cases "kind e = Tooltip")
    case True
    from D(9) [OF that True] have "activeTooltip s = Some (el_id e)" .
    then show ?thesis using D(3) [of "el_id e"] by (auto simp add: is_active_def)
  next
    case False
    from D(10) [OF that False] D(3) [of "el_id e"] show ?thesis
      by (auto simp add: is_active_def)
  qed
  then show ?thesis
    unfolding settle_fields by (intro filter_cong) simp_all
qed

lemma at_most_one_with_id:
  "distinct (map el_id es) \<Longrightarrow> length (filter (\<lambda>e. el_id e = i) es) \<le> 1"
proof (induction es)
  case Nil
  show ?case by simp
next
  case (Cons e es)
  show ?case
  proof (cases "el_id e = i")
    case True
    with Cons.prems have "i \<notin> el_id ` set es" by simp
    then have "filter (\<lambda>e. el_id e = i) es = []"
      by (simp add: filter_empty_conv) blast
    with True show ?thesis by simp
  next
    case False
    with Cons show ?thesis by simp
  qed
qed

lemma tooltips_at_most_one:
  assumes "ui_inv s"
  shows "length (filter (\<lambda>e. kind e = Tooltip) (document_body s)) \<le> 1"
proof (cases "activeTooltip s")
  case None
  with ui_invD(9) [OF assms] have "filter (\<lambda>e. kind e = Tooltip) (document_body s) = []"
    by (auto simp add: filter_empty_conv)
  then show ?thesis by simp
next
  case (Some t)
  have "filter (\<lambda>e. kind e = Tooltip) (document_body s) =
      filter (\<lambda>e. kind e = Tooltip) (filter (\<lambda>e. el_id e = t) (document_body s))"
    using ui_invD(9) [OF assms] Some by (auto intro!: filter_cong)
  also have "length \<dots> \<le> length (filter (\<lambda>e. el_id e = t) (document_body s))"
    by (rule length_filter_le)
  also have "\<dots> \<le> 1"
    using ui_invD(1) [OF assms] by (rule at_most_one_with_id)
  finally show ?thesis .
qed

lemma active_popover_count:
  assumes "ui_inv s"
  shows "popover_count (filter (is_active s) (document_body s)) =
     (if activeTooltip s = None \<and> activeSheet s = None then 0 else 1)"
proof -
  note D = ui_invD [OF assms]
  let ?P = "\<lambda>e. (kind e = Tooltip \<or> kind e = Sheet) \<and> is_active s e"
  have pc: "popover_count (filter (is_active s) (document_body s)) = length (filter ?P (document_body s))"
    by (simp add: popover_count_def conj_commute)
  show ?thesis
  proof (cases "activeTooltip s")
    case (Some t)
    with D(4) have n: "activeSheet s = None" "backdrop s = None" by simp_all
    from D(6) [OF Some] obtain e0 where e0: "e0 \<in> set (document_body s)" "el_id e0 = t" "kind e0 = Tooltip"
      by blast
    have "filter ?P (document_body s) = filter (\<lambda>e. el_id e = t) (document_body s)"
    proof (intro filter_cong refl)
      fix e assume m: "e \<in> set (document_body s)"
      show "?P e \<longleftrightarrow> el_id e = t"
      proof
        assume "?P e" then show "el_id e = t" using Some n by (auto simp add: is_active_def)
      next
        assume t: "el_id e = t"
        with D(1) e0 m have "e = e0" by (meson distinct_map inj_onD)
        with e0 Some show "?P e" by (simp add: is_active_def)
      qed
    qed
    moreover have "length (filter (\<lambda>e. el_id e = t) (document_body s)) = 1"
    proof -
      have "length (filter (\<lambda>e. el_id e = t) (document_body s)) \<le> 1"
        using D(1) by (rule at_most_one_with_id)
      moreover have "e0 \<in> set (filter (\<lambda>e. el_id e = t) (document_body s))"
        using e0 by simp
      then have "1 \<le> length (filter (\<lambda>e. el_id e = t) (document_body s))"
        by (cases "filter (\<lambda>e. el_id e = t) (document_body s)") simp_all
      ultimately show ?thesis by linarith
    qed
    ultimately have "length (filter ?P (document_body s)) = 1" by (simp only:)
    then show ?thesis using pc Some by simp
  next
    case None
    show ?thesis
    proof (cases "activeSheet s")
      case N2: None
      with D(5) have b: "backdrop s = None" by simp
      have "filter ?P (document_body s) = []"
        using None N2 b by (simp add: filter_empty_conv is_active_def)
      then show ?thesis using pc None N2 by simp
    next
      case (Some sh)
      from D(7) [OF Some] obtain e0 where e0: "e0 \<in> set (document_body s)" "el_id e0 = sh" "kind e0 = Sheet"
        by blast
      have "filter ?P (document_body s) = filter (\<lambda>e. el_id e = sh) (document_body s)"
      proof (intro filter_cong refl)
        fix e assume m: "e \<in> set (document_body s)"
        show "?P e \<longleftrightarrow> el_id e = sh"
        proof
          assume p: "?P e"
          show "el_id e = sh"
          proof (cases "kind e = Tooltip")
            case True
            from D(9) [OF m True] None show ?thesis by simp
          next
            case False
            with p have k: "kind e = Sheet" by simp
            from p None consider "activeSheet s = Some (el_id e)" | "backdrop s = Some (el_id e)"
              by (auto simp add: is_active_def)
            then show ?thesis
            proof cases
              case 1 with Some show ?thesis by simp
            next
              case 2
              from D(8) [OF 2] obtain e' where e': "e' \<in> set (document_body s)" "el_id e' = el_id e"
                "kind e' = Backdrop" by blast
              with D(1) m have "e' = e" by (meson distinct_map inj_onD)
              with e'(3) k show ?thesis by simp
            qed
          qed
        next
          assume t: "el_id e = sh"
          with D(1) e0 m have "e = e0" by (meson distinct_map inj_onD)
          with e0 Some show "?P e" by (simp add: is_active_def)
        qed
      qed
      moreover have "length (filter (\<lambda>e. el_id e = sh) (document_body s)) = 1"
      proof -
        have "length (filter (\<lambda>e. el_id e = sh) (document_body s)) \<le> 1"
          using D(1) by (rule at_most_one_with_id)
        moreover have "e0 \<in> set (filter (\<lambda>e. el_id e = sh) (document_body s))"
          using e0 by simp
        then have "1 \<le> length (filter (\<lambda>e. el_id e = sh) (document_body s))"
          by (cases "filter (\<lambda>e. el_id e = sh) (document_body s)") simp_all
        ultimately show ?thesis by linarith
      qed
      ultimately have "length (filter ?P (document_body s)) = 1" by (simp only:)
      then show ?thesis using pc None Some by simp
    qed
  qed
qed

lemma shown_showTooltip:
  assumes "ui_inv s"
  shows "shown (showTooltip tx s) = [tx]"
proof -
  let ?d = "dismissAll s"
  note D = ui_invD [OF ui_inv_dismissAll [OF assms]]
  have "\<not> (Some (next_id s) = Some (el_id e) \<or> activeSheet ?d = Some (el_id e))"
    if "e \<in> set (document_body ?d)" for e
  proof -
    from D(2) [OF that] have "el_id e < next_id s" by (simp add: dismissAll_fields)
    then have "next_id s \<noteq> el_id e" by simp
    then show ?thesis by (simp add: dismissAll_fields)
  qed
  then have "filter (\<lambda>e. Some (next_id s) = Some (el_id e) \<or> activeSheet ?d = Some (el_id e))
      (document_body ?d) = []"
    unfolding filter_empty_conv by blast
  then show ?thesis
    unfolding showTooltip_eq shown_def by (simp add: dismissAll_fields)
qed

lemma shown_showBottomSheet:
  assumes "ui_inv s"
  shows "shown (showBottomSheet num tx s) = [tx]"
proof -
  let ?d = "dismissAll s"
  note D = ui_invD [OF ui_inv_dismissAll [OF assms]]
  have "\<not> (activeTooltip ?d = Some (el_id e) \<or> Some (Suc (next_id s)) = Some (el_id e))"
    if "e \<in> set (document_body ?d)" for e
  proof -
    from D(2) [OF that] have "el_id e < next_id s" by (simp add: dismissAll_fields)
    then have "Suc (next_id s) \<noteq> el_id e" by simp
    then show ?thesis by (simp add: dismissAll_fields)
  qed
  then have "filter (\<lambda>e. activeTooltip ?d = Some (el_id e) \<or> Some (Suc (next_id s)) = Some (el_id e))
      (document_body ?d) = []"
    unfolding filter_empty_conv by blast
  then show ?thesis
    unfolding showBottomSheet_eq shown_def by (simp add: dismissAll_fields)
qed

lemma activate_defined:
  assumes "num \<noteq> []" "map_of fn num = Some tx"
  shows "activate fn mobile num s = (if mobile then showBottomSheet num tx s else showTooltip tx s)"
  using assms by (simp add: activate_def has_def)

lemma shown_settle:
  assumes "ui_inv s"
  shows "shown (settle s) = shown s"
proof -
  have "filter (\<lambda>e. activeTooltip s = Some (el_id e) \<or> activeSheet s = Some (el_id e))
        (filter (is_active s) (document_body s)) =
      filter (\<lambda>e. activeTooltip s = Some (el_id e) \<or> activeSheet s = Some (el_id e)) (document_body s)"
    by (auto simp add: is_active_def intro!: filter_cong)
  then show ?thesis
    unfolding shown_def settle_fields(3,4) settle_body_active [OF assms] by simp
qed

lemma open_after_show:
  "activeTooltip (showTooltip tx s) \<noteq> None" "activeSheet (showBottomSheet num tx s) \<noteq> None"
  by (simp_all add: showTooltip_eq showBottomSheet_eq)

text \<open>
  C2, as the code has it. In every state that a run of activations, dismissals and
  scheduled removals reaches, the engine holds at most one open popover (a tooltip, or a
  sheet with its backdrop); the document never holds two tooltips; every element of the
  document that is not part of the open popover is a dismissed sheet or backdrop whose
  removal is scheduled, and once the scheduled removals have run the document holds the
  open popover only. Activating a control with a defined note, whatever is open, leaves
  one open popover, which shows that note, and after the scheduled removals exactly one
  popover is in the document.
\<close>

theorem one_open_popover_old_sheet_awaits_removal:
  assumes "s = ui_run fn events"
  shows
    "(activeTooltip s = None \<or> (activeSheet s = None \<and> backdrop s = None)) \<and>
     (activeSheet s = None \<longleftrightarrow> backdrop s = None) \<and>
     length (filter (\<lambda>e. kind e = Tooltip) (document_body s)) \<le> 1 \<and>
     list_all (\<lambda>e. is_active s e \<or> el_id e \<in> set (scheduled s)) (document_body s) \<and>
     document_body (settle s) = filter (is_active s) (document_body s) \<and>
     popover_count (document_body (settle s)) \<le> 1 \<and>
     (\<forall>mobile num tx. num \<noteq> [] \<and> map_of fn num = Some tx \<longrightarrow>
        shown (ui_step fn s (Activate mobile num)) = [tx] \<and>
        shown (settle (ui_step fn s (Activate mobile num))) = [tx] \<and>
        popover_count (document_body (settle (ui_step fn s (Activate mobile num)))) = 1)"
proof -
  have inv: "ui_inv s" unfolding assms by (rule ui_inv_run)
  note D = ui_invD [OF inv]
  have a: "activeTooltip s = None \<or> (activeSheet s = None \<and> backdrop s = None)"
    "activeSheet s = None \<longleftrightarrow> backdrop s = None"
    using D(4,5) by simp_all
  have b: "length (filter (\<lambda>e. kind e = Tooltip) (document_body s)) \<le> 1"
    using inv by (rule tooltips_at_most_one)
  have c: "list_all (\<lambda>e. is_active s e \<or> el_id e \<in> set (scheduled s)) (document_body s)"
    unfolding list_all_iff
  proof
    fix e assume m: "e \<in> set (document_body s)"
    show "is_active s e \<or> el_id e \<in> set (scheduled s)"
    proof (cases "kind e = Tooltip")
      case True
      from D(9) [OF m True] show ?thesis by (simp add: is_active_def)
    next
      case False
      from D(10) [OF m False] show ?thesis .
    qed
  qed
  have d: "document_body (settle s) = filter (is_active s) (document_body s)"
    using inv by (rule settle_body_active)
  have e: "popover_count (document_body (settle s)) \<le> 1"
    unfolding d active_popover_count [OF inv] by simp
  have f: "shown (ui_step fn s (Activate mobile num)) = [tx] \<and>
        shown (settle (ui_step fn s (Activate mobile num))) = [tx] \<and>
        popover_count (document_body (settle (ui_step fn s (Activate mobile num)))) = 1"
    if "num \<noteq> [] \<and> map_of fn num = Some tx" for mobile num tx
  proof -
    let ?s = "ui_step fn s (Activate mobile num)"
    have eq: "?s = (if mobile then showBottomSheet num tx s else showTooltip tx s)"
      using that by (simp add: activate_defined)
    have inv': "ui_inv ?s" using inv by (rule ui_inv_step)
    have sh: "shown ?s = [tx]"
      unfolding eq using inv by (simp add: shown_showTooltip shown_showBottomSheet)
    have op: "\<not> (activeTooltip ?s = None \<and> activeSheet ?s = None)"
      unfolding eq using open_after_show by simp
    have "popover_count (document_body (settle ?s)) = 1"
      unfolding settle_body_active [OF inv'] active_popover_count [OF inv'] using op by simp
    with sh shown_settle [OF inv'] show ?thesis by simp
  qed
  from a b c d e f show ?thesis by blast
qed

text \<open>
  C2 as stated fails: a sheet is dismissed with an animated exit and stays in the document
  until its transition ends or 300 ms have passed. Right after a second activation on a
  narrow viewport the document holds two sheets.
\<close>

theorem two_sheets_in_document_counterexample:
  "popover_count (document_body (ui_run two_notes [Activate True ''1'', Activate True ''2''])) = 2"
  by code_simp

theorem one_open_popover_old_sheet_awaits_removal_witness:
  "shown (ui_step two_notes (ui_run two_notes [Activate True ''1'']) (Activate True ''2''))
     = [''Second note''] \<and>
   popover_count (document_body (settle
     (ui_step two_notes (ui_run two_notes [Activate True ''1'']) (Activate True ''2'')))) = 1"
proof -
  have p: "''2'' \<noteq> [] \<and> map_of two_notes ''2'' = Some ''Second note''"
    by (simp add: two_notes_def)
  from one_open_popover_old_sheet_awaits_removal [OF refl, of two_notes "[Activate True ''1'']",
      THEN conjunct2, THEN conjunct2, THEN conjunct2, THEN conjunct2, THEN conjunct2, THEN conjunct2,
      rule_format, OF p, of True]
  show ?thesis by simp
qed
section \<open>Citation discovery: the linked pass followed by the plain-text pass\<close>

subsection \<open>Removing the brackets around a link changes no citation\<close>

lemma marker_numbers_Chars: "marker_numbers (map Char x) = []"
  by (induction x) simp_all

lemma tokens_no_open:
  "\<forall>c\<in>set x. c \<noteq> CHR ''['' \<Longrightarrow> tokens (x @ r) = map Char x @ tokens r"
  by (induction x) (simp_all add: match_marker_not_open)

lemma match_marker_no_close:
  assumes "CHR '']'' \<notin> set y"
  shows "match_marker (x @ y) =
     (case match_marker x of None \<Rightarrow> None | Some (n, r) \<Rightarrow> Some (n, r @ y))"
proof (cases "match_marker x")
  case (Some m)
  obtain n r where m: "m = (n, r)" by (cases m)
  from match_marker_append [OF Some [unfolded m]] Some m show ?thesis by simp
next
  case None
  have "match_marker (x @ y) = None"
  proof (cases "match_marker (x @ y)")
    case None then show ?thesis .
  next
    case (Some m)
    obtain n r' where m: "m = (n, r')" by (cases m)
    from match_marker_SomeD [OF Some [unfolded m]]
    have e: "x @ y = (CHR ''['' # n) @ CHR '']'' # r'" and n: "n \<noteq> []" "\<forall>c\<in>set n. is_digit c"
      by simp_all
    from e obtain us where "(x = (CHR ''['' # n) @ us \<and> us @ y = CHR '']'' # r') \<or>
        (x @ us = CHR ''['' # n \<and> y = us @ CHR '']'' # r')"
      unfolding append_eq_append_conv2 by blast
    then have "\<exists>r''. x = CHR ''['' # n @ CHR '']'' # r''"
    proof
      assume a: "x = (CHR ''['' # n) @ us \<and> us @ y = CHR '']'' # r'"
      show ?thesis
      proof (cases us)
        case Nil
        with a assms show ?thesis by auto
      next
        case (Cons u us')
        with a show ?thesis by auto
      qed
    next
      assume "x @ us = CHR ''['' # n \<and> y = us @ CHR '']'' # r'"
      with assms show ?thesis by auto
    qed
    then obtain r'' where "x = CHR ''['' # n @ CHR '']'' # r''" by blast
    with n have "match_marker x = Some (n, r'')" by (simp add: match_marker_intro)
    with None show ?thesis by simp
  qed
  with None show ?thesis by simp
qed

lemma tokens_context_no_close:
  assumes "CHR '']'' \<notin> set y"
  shows "tokens (x @ y) = tokens x @ map Char y"
proof (induction x rule: tokens.induct)
  case 1
  have "find_marker y 0 = None"
  proof (cases "find_marker y 0")
    case None then show ?thesis .
  next
    case (Some m)
    obtain i n r where "m = (i, n, r)" by (cases m)
    with Some find_marker_Some_tokens [of y 0 i n r] assms show ?thesis by auto
  qed
  then show ?case by (simp add: find_marker_None_tokens)
next
  case (2 c s)
  show ?case
  proof (cases "match_marker (c # s)")
    case None
    then have "match_marker ((c # s) @ y) = None"
      using match_marker_no_close [OF assms, of "c # s"] by simp
    with None 2(1) [OF None] show ?thesis by simp
  next
    case (Some m)
    obtain n r where m: "m = (n, r)" by (cases m)
    from Some m have "match_marker ((c # s) @ y) = Some (n, r @ y)"
      using match_marker_no_close [OF assms, of "c # s"] by simp
    with Some m 2(2) [OF Some m [symmetric]] show ?thesis by simp
  qed
qed

lemma strip_leading_decomp:
  "\<exists>pre. s = pre @ strip_leading ws s \<and> set pre \<subseteq> \<Union> (set ` set ws)"
proof (induction ws s rule: strip_leading.induct)
  case (1 ws s)
  show ?case
  proof (cases "find (\<lambda>w. w \<noteq> [] \<and> prefix w s) ws")
    case None
    then have "strip_leading ws s = s" by (subst strip_leading.simps) simp
    then have "s = [] @ strip_leading ws s \<and> set [] \<subseteq> \<Union> (set ` set ws)" by simp
    then show ?thesis by blast
  next
    case (Some w)
    then have w: "w \<in> set ws" "prefix w s"
      by (auto simp add: find_Some_iff)
    have eq: "strip_leading ws s = strip_leading ws (drop (length w) s)"
      using Some by (subst strip_leading.simps) simp
    from 1 [OF Some] obtain pre where
      pre: "drop (length w) s = pre @ strip_leading ws (drop (length w) s)" "set pre \<subseteq> \<Union> (set ` set ws)"
      by blast
    from w(2) have "s = w @ drop (length w) s"
      by (auto simp add: prefix_def)
    with pre(1) eq have "s = (w @ pre) @ strip_leading ws s" by simp
    moreover have "set (w @ pre) \<subseteq> \<Union> (set ` set ws)"
      using w(1) pre(2) by auto
    ultimately show ?thesis by blast
  qed
qed

lemma whitespace_bytes:
  "CHR ''['' \<notin> \<Union> (set ` set js_whitespace)" "CHR '']'' \<notin> \<Union> (set ` set js_whitespace)"
  by (simp_all add: js_whitespace_def)

lemma trimStart_decomp:
  "\<exists>pre. s = pre @ trimStart s \<and> CHR ''['' \<notin> set pre \<and> CHR '']'' \<notin> set pre"
proof -
  from strip_leading_decomp [of s js_whitespace] obtain pre where
    "s = pre @ trimStart s" "set pre \<subseteq> \<Union> (set ` set js_whitespace)"
    unfolding trimStart_def by blast
  with whitespace_bytes show ?thesis by blast
qed

lemma defined_citations_strip_close:
  "defined_citations fn (strip_close q) = defined_citations fn q"
proof (cases "trimStart q")
  case Nil
  then show ?thesis by (simp add: strip_close_def)
next
  case (Cons c r)
  show ?thesis
  proof (cases "c = CHR '']''")
    case False
    with Cons show ?thesis by (simp add: strip_close_def)
  next
    case True
    from trimStart_decomp [of q] obtain pre where
      pre: "q = pre @ trimStart q" "CHR ''['' \<notin> set pre" by blast
    have q: "q = (pre @ [CHR '']'']) @ r"
      using pre(1) Cons True by simp
    have "\<forall>c\<in>set (pre @ [CHR '']'']). c \<noteq> CHR ''[''"
      using pre(2) by auto
    then have "tokens ((pre @ [CHR '']'']) @ r) = map Char (pre @ [CHR '']'']) @ tokens r"
      by (rule tokens_no_open)
    then have "marker_numbers (tokens q) = marker_numbers (tokens r)"
      using q by (simp add: marker_numbers_append marker_numbers_Chars)
    moreover have "strip_close q = r"
      using Cons True by (simp add: strip_close_def)
    ultimately show ?thesis
      by (simp add: defined_citations_def citations_def)
  qed
qed

lemma strip_open_cases:
  "strip_open p = p \<or> (\<exists>w. p = strip_open p @ CHR ''['' # w \<and> all_whitespace w)"
proof (induction p)
  case Nil
  show ?case by simp
next
  case (Cons c p)
  show ?case
  proof (cases "c = CHR ''['' \<and> all_whitespace p")
    case True
    then show ?thesis by auto
  next
    case False
    with Cons show ?thesis by auto
  qed
qed

lemma defined_citations_strip_open:
  "defined_citations fn (strip_open p) = defined_citations fn p"
proof -
  from strip_open_cases [of p] show ?thesis
  proof
    assume "strip_open p = p" then show ?thesis by simp
  next
    assume "\<exists>w. p = strip_open p @ CHR ''['' # w \<and> all_whitespace w"
    then obtain w where w: "p = strip_open p @ CHR ''['' # w" "all_whitespace w" by blast
    from trimStart_decomp [of w] w(2) have "CHR '']'' \<notin> set w"
      by (auto simp add: all_whitespace_def)
    then have "CHR '']'' \<notin> set (CHR ''['' # w)" by simp
    then have "tokens (strip_open p @ CHR ''['' # w) = tokens (strip_open p) @ map Char (CHR ''['' # w)"
      by (rule tokens_context_no_close)
    then have "marker_numbers (tokens p) = marker_numbers (tokens (strip_open p))"
      using w(1) by (simp add: marker_numbers_append marker_numbers_Chars del: map_eq_Cons_conv list.map)
    then show ?thesis by (simp add: defined_citations_def citations_def)
  qed
qed

subsection \<open>The controls after both passes\<close>

lemma plain_controls_simps:
  "plain_controls fn rej [] = []"
  "plain_controls fn rej (x # xs) = concat (map controls (wrap_plain fn rej x)) @ plain_controls fn rej xs"
  "plain_controls fn rej (xs @ ys) = plain_controls fn rej xs @ plain_controls fn rej ys"
  by (simp_all add: plain_controls_def)

lemma plain_controls_strip_prev:
  "plain_controls fn rej (rev (strip_prev d)) = plain_controls fn rej (rev d)"
proof (cases d)
  case Nil
  then show ?thesis by (simp add: strip_prev_def)
next
  case (Cons x d')
  show ?thesis
  proof (cases x)
    case (Text p)
    with Cons show ?thesis
      by (simp add: strip_prev_def plain_controls_simps controls_wrap_plain_Text
        defined_citations_strip_open del: wrap_plain.simps)
  next
    case (Element tag attrs cs)
    with Cons show ?thesis by (simp add: strip_prev_def)
  qed
qed

lemma expected_strip_next:
  "concat (map (expected fn in_fn in_notes) (strip_next rest)) =
   concat (map (expected fn in_fn in_notes) rest)"
proof (cases rest)
  case Nil
  then show ?thesis by (simp add: strip_next_def)
next
  case (Cons x r)
  show ?thesis
  proof (cases x)
    case (Text q)
    with Cons show ?thesis
      by (simp add: strip_next_def defined_citations_strip_close)
  next
    case (Element tag attrs cs)
    with Cons show ?thesis by (simp add: strip_next_def)
  qed
qed

lemma linked_citation_linked_style:
  "linked_citation fn in_fn n = (if in_fn then None else linked_style fn n)"
proof (cases n)
  case (Text s)
  then show ?thesis by simp
next
  case (Element tag attrs cs)
  then show ?thesis
    by (cases "getAttribute attrs ''href''") (simp_all add: is_fragment_link_def Let_def)
qed

lemma controls_passes:
  "linked_citation fn in_fn n = None \<Longrightarrow>
     plain_controls fn (in_fn \<or> in_notes) [wrap_links_node fn in_fn n] = expected fn in_fn in_notes n"
  "plain_controls fn (in_fn \<or> in_notes) (wrap_links fn in_fn d todo) =
     plain_controls fn (in_fn \<or> in_notes) (rev d) @ concat (map (expected fn in_fn in_notes) todo)"
proof (induction fn in_fn n and fn in_fn d todo arbitrary: in_notes and in_notes
    rule: wrap_links_node_wrap_links.induct)
  case (1 fn in_fn s)
  show ?case
    by (simp add: plain_controls_simps controls_wrap_plain_Text del: wrap_plain.simps)
next
  case (2 fn in_fn tag attrs cs)
  let ?f = "in_fn \<or> has_data_fn attrs"
  let ?n = "in_notes \<or> is_notes_div tag attrs"
  have r: "(in_fn \<or> in_notes \<or> is_notes_div tag attrs \<or> has_data_fn attrs) =
      (in_fn \<or> has_data_fn attrs \<or> in_notes \<or> is_notes_div tag attrs)"
    by blast
  from 2(2) have ls: "(if in_fn then None else linked_style fn (Element tag attrs cs)) = None"
    by (simp only: linked_citation_linked_style)
  have "plain_controls fn (in_fn \<or> in_notes) [wrap_links_node fn in_fn (Element tag attrs cs)] =
      own_control attrs @ plain_controls fn (?f \<or> ?n) (wrap_links fn ?f [] cs)"
    by (simp add: plain_controls_def own_control_def) (simp only: r)
  also have "plain_controls fn (?f \<or> ?n) (wrap_links fn ?f [] cs) =
      concat (map (expected fn ?f ?n) cs)"
    using 2(1) [of ?n] by (simp add: plain_controls_simps)
  finally show ?case
    using ls by (simp only: expected.simps option.case)
next
  case (3 fn in_fn d)
  show ?case by simp
next
  case (4 fn in_fn d c rest)
  show ?case
  proof (cases "linked_citation fn in_fn c")
    case None
    have "plain_controls fn (in_fn \<or> in_notes) (wrap_links fn in_fn d (c # rest)) =
        plain_controls fn (in_fn \<or> in_notes) (wrap_links fn in_fn (wrap_links_node fn in_fn c # d) rest)"
      using None by simp
    also have "\<dots> = plain_controls fn (in_fn \<or> in_notes) (rev (wrap_links_node fn in_fn c # d)) @
        concat (map (expected fn in_fn in_notes) rest)"
      by (rule 4(2) [OF None])
    also have "plain_controls fn (in_fn \<or> in_notes) (rev (wrap_links_node fn in_fn c # d)) =
        plain_controls fn (in_fn \<or> in_notes) (rev d) @ expected fn in_fn in_notes c"
      using 4(1) [OF None None, of in_notes] by (simp add: plain_controls_simps)
    finally show ?thesis by simp
  next
    case (Some num)
    then have e: "expected fn in_fn in_notes c = [control_of num]"
      by (cases c) (simp_all add: linked_citation_linked_style split: if_splits)
    have "plain_controls fn (in_fn \<or> in_notes) (wrap_links fn in_fn d (c # rest)) =
        plain_controls fn (in_fn \<or> in_notes) (wrap_links fn in_fn (button num # strip_prev d) (strip_next rest))"
      using Some by simp
    also have "\<dots> = plain_controls fn (in_fn \<or> in_notes) (rev (button num # strip_prev d)) @
        concat (map (expected fn in_fn in_notes) (strip_next rest))"
      by (rule 4(3) [OF Some])
    also have "plain_controls fn (in_fn \<or> in_notes) (rev (button num # strip_prev d)) =
        plain_controls fn (in_fn \<or> in_notes) (rev d) @ [control_of num]"
      by (simp add: plain_controls_simps plain_controls_strip_prev wrap_plain_button controls_button)
    finally show ?thesis
      using e by (simp add: expected_strip_next)
  qed
qed

lemma controls_both_passes_Element:
  "controls (wrapPlainTextNotes fn (wrapLinkedNotes fn (Element tag attrs cs))) =
     expected_controls fn (Element tag attrs cs)"
proof -
  let ?f = "has_data_fn attrs"
  let ?n = "is_notes_div tag attrs"
  have "controls (wrapPlainTextNotes fn (wrapLinkedNotes fn (Element tag attrs cs))) =
      own_control attrs @ plain_controls fn (?f \<or> ?n) (wrap_links fn ?f [] cs)"
    by (simp add: wrapLinkedNotes_def plain_controls_def own_control_def disj_commute)
  also have "plain_controls fn (?f \<or> ?n) (wrap_links fn ?f [] cs) = concat (map (expected fn ?f ?n) cs)"
    using controls_passes(2) [of fn ?f ?n "[]" cs] by (simp add: plain_controls_simps)
  finally show ?thesis by simp
qed

lemma controls_both_passes:
  "controls (wrapPlainTextNotes fn (wrapLinkedNotes fn prose)) = expected_controls fn prose"
proof (cases prose)
  case (Text s)
  then show ?thesis by (simp add: wrapLinkedNotes_def)
next
  case (Element tag attrs cs)
  then show ?thesis by (simp only: controls_both_passes_Element)
qed

text \<open>
  C1 (corrected). Let the Definition Map of the prose container be given. After the linked
  pass and the plain-text pass the controls of the container, in document order, are the
  ones it had before and one control for each citation of the two styles, carrying the
  number of the citation and the accessible label \<^verbatim>\<open>Footnote N\<close>:
  \<^item> a linked citation is a hyperlink whose target starts with \<^verbatim>\<open>#f\<close>, whose text is, up to
    surrounding white space, a number of the map, and that stands in no element carrying
    \<^verbatim>\<open>data-fn\<close>; it gives one control, and nothing below it is looked at again;
  \<^item> a plain citation is a marker \<^verbatim>\<open>[N]\<close> with \<open>N\<close> in the map, inside one text that stands in
    no \<^verbatim>\<open>div.text-xs\<close> and in no element carrying \<^verbatim>\<open>data-fn\<close>.
  When the map has an entry, this is what \<open>initFootnotes\<close> does to the container.
\<close>

theorem citation_discovery_one_control_each:
  "controls (wrapPlainTextNotes fn (wrapLinkedNotes fn prose)) = expected_controls fn prose \<and>
   (parseFootnotes innerHTML html_text prose \<noteq> [] \<longrightarrow>
      controls (initFootnotes innerHTML html_text prose) =
        expected_controls (parseFootnotes innerHTML html_text prose) prose)"
  by (simp add: controls_both_passes initFootnotes_def Let_def)

text \<open>
  C1 as stated fails: a hyperlink to a same-page fragment whose target does not start with
  \<^verbatim>\<open>#f\<close> is left as it is, although its text is a number of the Definition Map.
\<close>

theorem same_page_link_not_converted_counterexample:
  "parseFootnotes sample_innerHTML (\<lambda>raw. raw) anchor_prose = [(''1'', ''McCarthy, 1960.'')] \<and>
   initFootnotes sample_innerHTML (\<lambda>raw. raw) anchor_prose = anchor_prose \<and>
   controls (initFootnotes sample_innerHTML (\<lambda>raw. raw) anchor_prose) = []"
  by code_simp

lemma linked_prose_parse:
  "parseFootnotes sample_innerHTML (\<lambda>raw. raw) linked_prose = [(''1'', ''McCarthy, 1960.'')]"
  by code_simp

lemma linked_prose_expected:
  "expected_controls [(''1'', ''McCarthy, 1960.'')] linked_prose =
     [(''1'', Some ''Footnote 1''), (''1'', Some ''Footnote 1'')]"
  by code_simp

theorem citation_discovery_one_control_each_witness:
  "parseFootnotes sample_innerHTML (\<lambda>raw. raw) linked_prose \<noteq> [] \<and>
   controls (initFootnotes sample_innerHTML (\<lambda>raw. raw) linked_prose) =
     [(''1'', Some ''Footnote 1''), (''1'', Some ''Footnote 1'')]"
  using citation_discovery_one_control_each [of "[]" linked_prose sample_innerHTML "\<lambda>raw. raw"]
  by (simp add: linked_prose_parse linked_prose_expected)


end
